theory Spec2Isabelle
  imports Main "HOL-Library.Multiset" "HOL-Library.Sublist" "HOL-Library.Word"
begin

section \<open>Data model of \<open>Compresor_Huffman.py\<close>\<close>

text \<open>
  The exceptions the code can raise. \<open>ValueError\<close> is raised explicitly by
  \<open>build_huffman_tree\<close>, \<open>generate_codes\<close> and \<open>serialize_tree\<close> (and by
  \<open>int(byte, 2)\<close> on a non-binary literal); \<open>IndexError\<close> by \<open>serialized[1]\<close> and by
  \<open>heappop\<close> on an empty list; \<open>KeyError\<close> by \<open>self.codes[char]\<close>; \<open>AttributeError\<close> by an
  attribute access on \<open>None\<close>; \<open>TypeError\<close> by \<open>decoded_text += x\<close> when \<open>x\<close> is not a string;
  \<open>IOError\<close> by the \<open>except Exception\<close> clause around the reading steps of \<open>decompress\<close>.
\<close>

datatype error = ValueError | IndexError | KeyError | AttributeError | TypeError | IOError

text \<open>
  The type \<open>'a\<close> is that of the characters of the text, the elements of a Python \<open>str\<close>; a
  text is an \<open>'a list\<close>. The strings of bits the code builds are \<open>string\<close>s of the digits
  \<open>0\<close> and \<open>1\<close>.

  The entries of a serialized tree: the pre-order list mixes the booleans appended by
  \<open>serialized.append(True)\<close> / \<open>serialized.append(False)\<close> with the characters appended by
  \<open>serialized.append(node.char)\<close>.
\<close>

datatype 'a token = Flag bool | Sym 'a

text \<open>
  Class \<open>HuffmanNode\<close>: the four attributes \<open>char\<close>, \<open>freq\<close>, \<open>left\<close>, \<open>right\<close>. \<open>None\<close> is
  \<open>None\<close>. The attribute \<open>char\<close> holds whatever object the constructor was given: a character
  of the text in \<open>build_huffman_tree\<close>, the entry \<open>serialized[1]\<close> in \<open>deserialize_tree\<close>.
\<close>

datatype 'a HuffmanNode =
  HuffmanNode (char: "'a token option") (freq: nat)
    (left: "'a HuffmanNode option") (right: "'a HuffmanNode option")

text \<open>\<open>__lt__\<close>: nodes are compared by frequency only.\<close>

definition lt :: "'a HuffmanNode \<Rightarrow> 'a HuffmanNode \<Rightarrow> bool" where
  "lt self other = (freq self < freq other)"

definition is_leaf :: "'a HuffmanNode \<Rightarrow> bool" where
  "is_leaf self = (char self \<noteq> None)"

text \<open>
  Class \<open>HuffmanCompressor\<close>: \<open>frequency_map\<close> is a \<open>Counter\<close>, a dictionary that keeps its keys
  in order of first insertion (the order \<open>items()\<close> lists them in), so it is an association
  list with distinct keys; \<open>codes\<close> is a dictionary that is only looked up and stored into.
\<close>

record 'a HuffmanCompressor =
  frequency_map :: "('a \<times> nat) list"
  huffman_tree :: "'a HuffmanNode option"
  codes :: "'a token \<rightharpoonup> string"

definition init :: "'a HuffmanCompressor" where
  "init = \<lparr>frequency_map = [], huffman_tree = None, codes = Map.empty\<rparr>"

section \<open>Frequencies\<close>

text \<open>
  \<open>Counter(text)\<close> walks the text and adds one to the count of each character, a new key
  going to the end of the dictionary.
\<close>

fun count_elem :: "('a \<times> nat) list \<Rightarrow> 'a \<Rightarrow> ('a \<times> nat) list" where
  "count_elem [] c = [(c, 1)]"
| "count_elem ((k, n) # m) c = (if k = c then (k, n + 1) # m else (k, n) # count_elem m c)"

definition Counter :: "'a list \<Rightarrow> ('a \<times> nat) list" where
  "Counter text = foldl count_elem [] text"

definition calculate_frequencies ::
  "'a HuffmanCompressor \<Rightarrow> 'a list \<Rightarrow> ('a \<times> nat) list \<times> 'a HuffmanCompressor" where
  "calculate_frequencies self text =
     (let self1 = self\<lparr>frequency_map := Counter text\<rparr> in (frequency_map self1, self1))"

section \<open>The priority queue: \<open>heapq\<close> on a list\<close>

text \<open>
  \<open>heapq._siftdown(heap, startpos, pos)\<close>: the item at \<open>pos\<close> moves towards \<open>startpos\<close> while
  it is smaller than its parent; the loop carries the item and writes it at the end.
\<close>

function siftdown_loop :: "'a HuffmanNode list \<Rightarrow> nat \<Rightarrow> 'a HuffmanNode \<Rightarrow> nat \<Rightarrow> 'a HuffmanNode list" where
  "siftdown_loop heap startpos newitem pos =
     (if pos > startpos then
        (let parentpos = (pos - 1) div 2; parent = heap ! parentpos in
         if lt newitem parent then siftdown_loop (heap[pos := parent]) startpos newitem parentpos
         else heap[pos := newitem])
      else heap[pos := newitem])"
  by pat_completeness auto
termination
  by (relation "measure (\<lambda>(heap, startpos, newitem, pos). pos)") auto

declare siftdown_loop.simps [simp del]

definition siftdown :: "'a HuffmanNode list \<Rightarrow> nat \<Rightarrow> nat \<Rightarrow> 'a HuffmanNode list" where
  "siftdown heap startpos pos = siftdown_loop heap startpos (heap ! pos) pos"

text \<open>
  \<open>heapq._siftup(heap, pos)\<close>: the smaller child is moved up until a leaf position is
  reached; the loop returns the list and that position. Then the item that started at
  \<open>pos\<close> is put there and sifted back towards \<open>pos\<close>.
\<close>

function siftup_loop :: "'a HuffmanNode list \<Rightarrow> nat \<Rightarrow> 'a HuffmanNode list \<times> nat" where
  "siftup_loop heap pos =
     (let endpos = length heap; childpos = 2 * pos + 1 in
      if childpos < endpos then
        (let rightpos = childpos + 1;
             childpos1 = (if rightpos < endpos \<and> \<not> lt (heap ! childpos) (heap ! rightpos)
                          then rightpos else childpos)
         in siftup_loop (heap[pos := heap ! childpos1]) childpos1)
      else (heap, pos))"
  by pat_completeness auto
termination
  by (relation "measure (\<lambda>(heap, pos). length heap - pos)") (auto simp: Let_def)

declare siftup_loop.simps [simp del]

definition siftup :: "'a HuffmanNode list \<Rightarrow> nat \<Rightarrow> 'a HuffmanNode list" where
  "siftup heap pos =
     (let newitem = heap ! pos in
      case siftup_loop heap pos of (heap1, pos1) \<Rightarrow> siftdown (heap1[pos1 := newitem]) pos pos1)"

text \<open>\<open>heapq.heapify(x)\<close>: \<open>for i in reversed(range(n//2)): _siftup(x, i)\<close>.\<close>

definition heapify :: "'a HuffmanNode list \<Rightarrow> 'a HuffmanNode list" where
  "heapify x = foldl siftup x (rev [0 ..< length x div 2])"

text \<open>\<open>heapq.heappush(heap, item)\<close>.\<close>

definition heappush :: "'a HuffmanNode list \<Rightarrow> 'a HuffmanNode \<Rightarrow> 'a HuffmanNode list" where
  "heappush heap item = siftdown (heap @ [item]) 0 (length heap)"

text \<open>
  \<open>heapq.heappop(heap)\<close>: \<open>heap.pop()\<close> raises \<open>IndexError\<close> on the empty list; the result is
  the popped item and the list that is left.
\<close>

definition heappop :: "'a HuffmanNode list \<Rightarrow> error + ('a HuffmanNode \<times> 'a HuffmanNode list)" where
  "heappop heap =
     (if heap = [] then Inl IndexError
      else (let lastelt = last heap; heap1 = butlast heap in
            if heap1 \<noteq> [] then Inr (heap1 ! 0, siftup (heap1[0 := lastelt]) 0)
            else Inr (lastelt, heap1)))"

section \<open>Building the tree\<close>

text \<open>
  The loop of \<open>build_huffman_tree\<close>: while more than one node is queued, the two nodes popped
  first become the left and the right child of a new node that is pushed back.
\<close>

function build_loop :: "'a HuffmanNode list \<Rightarrow> error + 'a HuffmanNode list" where
  "build_loop priority_queue =
     (if length priority_queue > 1 then
        (case heappop priority_queue of
           Inl e \<Rightarrow> Inl e
         | Inr (lft, pq1) \<Rightarrow>
             (case heappop pq1 of
                Inl e \<Rightarrow> Inl e
              | Inr (rgt, pq2) \<Rightarrow>
                  build_loop (heappush pq2
                    (HuffmanNode None (freq lft + freq rgt) (Some lft) (Some rgt)))))
      else Inr priority_queue)"
  by pat_completeness auto
termination
proof -
  have sd: "length (siftdown_loop h s x p) = length h" for h s x p
    by (induction h s x p rule: siftdown_loop.induct)
       (subst siftdown_loop.simps, simp add: Let_def)
  have sl: "length (fst (siftup_loop h p)) = length h" for h p
    by (induction h p rule: siftup_loop.induct)
       (subst siftup_loop.simps, simp add: Let_def)
  have su: "length (siftup h p) = length h" for h p
    using sl [of h p] by (cases "siftup_loop h p") (simp add: siftup_def siftdown_def sd Let_def)
  have pop: "length q = length h - 1" if "heappop h = Inr (x, q)" for h x q
    using that by (cases h rule: rev_cases) (auto simp: heappop_def Let_def su split: if_splits)
  have push: "length (heappush h x) = Suc (length h)" for h x
    by (simp add: heappush_def siftdown_def sd)
  show ?thesis
    by (relation "measure length") (auto simp: push dest!: pop)
qed

declare build_loop.simps [simp del]

definition build_huffman_tree ::
  "'a HuffmanCompressor \<Rightarrow> error + ('a HuffmanNode option \<times> 'a HuffmanCompressor)" where
  "build_huffman_tree self =
     (if frequency_map self = [] then Inl ValueError
      else
        (let priority_queue =
               heapify (map (\<lambda>(c, f). HuffmanNode (Some (Sym c)) f None None) (frequency_map self))
         in case build_loop priority_queue of
              Inl e \<Rightarrow> Inl e
            | Inr pq \<Rightarrow>
                (let self1 = self\<lparr>huffman_tree := (if pq \<noteq> [] then Some (pq ! 0) else None)\<rparr>
                 in Inr (huffman_tree self1, self1))))"

section \<open>Code generation\<close>

text \<open>
  The recursive calls of \<open>generate_codes\<close>, which pass a node: a leaf stores its code
  (\<open>"0"\<close> when the code is empty), any other node visits the children that are not \<open>None\<close>.
  The dictionary \<open>self.codes\<close> is threaded through.
\<close>

fun generate_codes_node :: "'a HuffmanNode \<Rightarrow> string \<Rightarrow> ('a token \<rightharpoonup> string) \<Rightarrow> ('a token \<rightharpoonup> string)"
  and generate_codes_child :: "'a HuffmanNode option \<Rightarrow> string \<Rightarrow> ('a token \<rightharpoonup> string) \<Rightarrow> ('a token \<rightharpoonup> string)"
where
  "generate_codes_node (HuffmanNode c f l r) code cs =
     (case c of
        Some ch \<Rightarrow> cs(ch \<mapsto> (if code \<noteq> [] then code else ''0''))
      | None \<Rightarrow> generate_codes_child r (code @ ''1'') (generate_codes_child l (code @ ''0'') cs))"
| "generate_codes_child None code cs = cs"
| "generate_codes_child (Some n) code cs = generate_codes_node n code cs"

text \<open>
  The call \<open>generate_codes()\<close> without a node: it fails without a tree, empties
  \<open>self.codes\<close> and walks the tree. The value returned is that of the \<open>return\<close> reached: the
  bare \<open>return\<close> of the leaf branch gives \<open>None\<close>, the last line gives \<open>self.codes\<close>.
\<close>

definition generate_codes ::
  "'a HuffmanCompressor \<Rightarrow> error + (('a token \<rightharpoonup> string) option \<times> 'a HuffmanCompressor)" where
  "generate_codes self =
     (case huffman_tree self of
        None \<Rightarrow> Inl ValueError
      | Some node \<Rightarrow>
          (let self1 = self\<lparr>codes := Map.empty\<rparr>;
               self2 = self1\<lparr>codes := generate_codes_node node [] (codes self1)\<rparr>
           in Inr (if is_leaf node then None else Some (codes self2), self2)))"

section \<open>Serializing the tree\<close>

fun serialize_node :: "'a HuffmanNode \<Rightarrow> 'a token list"
  and serialize_child :: "'a HuffmanNode option \<Rightarrow> 'a token list"
where
  "serialize_node (HuffmanNode c f l r) =
     (case c of
        Some ch \<Rightarrow> [Flag True, ch]
      | None \<Rightarrow> Flag False # serialize_child l @ serialize_child r)"
| "serialize_child None = []"
| "serialize_child (Some n) = serialize_node n"

definition serialize_tree :: "'a HuffmanCompressor \<Rightarrow> error + 'a token list" where
  "serialize_tree self =
     (case huffman_tree self of None \<Rightarrow> Inl ValueError | Some node \<Rightarrow> Inr (serialize_node node))"

text \<open>
  Python's truth value of a list entry, as \<open>if is_leaf:\<close> reads it: a boolean is itself, a
  character is a non-empty string and so true.
\<close>

fun truthy :: "'a token \<Rightarrow> bool" where
  "truthy (Flag b) = b"
| "truthy (Sym c) = True"

function deserialize_tree :: "'a token list \<Rightarrow> error + ('a HuffmanNode option \<times> 'a token list)" where
  "deserialize_tree [] = Inr (None, [])"
| "deserialize_tree (is_leaf_entry # rest) =
     (if truthy is_leaf_entry then
        (case rest of
           [] \<Rightarrow> Inl IndexError
         | ch # rest1 \<Rightarrow> Inr (Some (HuffmanNode (Some ch) 0 None None), rest1))
      else
        (case deserialize_tree rest of
           Inl e \<Rightarrow> Inl e
         | Inr (left_node, remaining) \<Rightarrow>
             (case deserialize_tree remaining of
                Inl e \<Rightarrow> Inl e
              | Inr (right_node, remaining1) \<Rightarrow>
                  Inr (Some (HuffmanNode None 0 left_node right_node), remaining1))))"
  by pat_completeness auto
termination
proof -
  have shorter: "length r \<le> length s"
    if "deserialize_tree_dom s" and "deserialize_tree s = Inr (n, r)" for s n r
    using that
  proof (induction s arbitrary: n r rule: deserialize_tree.pinduct)
    case 1
    then show ?case by (simp add: deserialize_tree.psimps)
  next
    case (2 e rest)
    show ?case
    proof (cases "truthy e")
      case True
      with 2 show ?thesis
        by (auto simp: deserialize_tree.psimps split: list.splits)
    next
      case False
      with 2(1,4) obtain ln r1 rn where
        a: "deserialize_tree rest = Inr (ln, r1)" and
        b: "deserialize_tree r1 = Inr (rn, r)"
        by (auto simp: deserialize_tree.psimps split: sum.splits)
      from 2(2) [OF False a] have "length r1 \<le> length rest" .
      moreover from 2(3) [OF False a refl b] have "length r \<le> length r1" .
      ultimately show ?thesis by simp
    qed
  qed
  show ?thesis
    by (relation "measure length") (auto dest!: shorter simp: le_imp_less_Suc)
qed

declare deserialize_tree.simps [simp del]

section \<open>Compression\<close>

text \<open>The loop \<open>for char in text: encoded_text += self.codes[char]\<close>.\<close>

fun encode_loop :: "('a token \<rightharpoonup> string) \<Rightarrow> 'a list \<Rightarrow> string \<Rightarrow> error + string" where
  "encode_loop cs [] encoded_text = Inr encoded_text"
| "encode_loop cs (c # text) encoded_text =
     (case cs (Sym c) of
        None \<Rightarrow> Inl KeyError
      | Some code \<Rightarrow> encode_loop cs text (encoded_text @ code))"

text \<open>
  \<open>padding = 8 - (len(encoded_text) % 8) if (len(encoded_text) % 8) != 0 else 0\<close>.
\<close>

definition padding_of :: "string \<Rightarrow> int" where
  "padding_of encoded_text =
     (if length encoded_text mod 8 \<noteq> 0 then 8 - int (length encoded_text mod 8) else 0)"

text \<open>
  \<open>int(byte, 2)\<close> on the strings the code passes to it, which hold binary digits only: the
  value of the digits, most significant first; \<open>ValueError\<close> on an empty string or on
  another character.
\<close>

fun int2_loop :: "nat \<Rightarrow> string \<Rightarrow> error + nat" where
  "int2_loop acc [] = Inr acc"
| "int2_loop acc (d # ds) =
     (if d = CHR ''0'' then int2_loop (2 * acc) ds
      else if d = CHR ''1'' then int2_loop (2 * acc + 1) ds
      else Inl ValueError)"

definition int2 :: "string \<Rightarrow> error + nat" where
  "int2 s = (if s = [] then Inl ValueError else int2_loop 0 s)"

text \<open>
  The loop \<open>for i in range(0, len(padded_text), 8)\<close>: each slice \<open>padded_text[i:i+8]\<close> is
  read as a number and appended; \<open>bytearray.append\<close> raises \<open>ValueError\<close> outside
  \<open>range(256)\<close>.
\<close>

function pack_loop :: "string \<Rightarrow> 8 word list \<Rightarrow> error + 8 word list" where
  "pack_loop padded_text bytes_array =
     (if padded_text = [] then Inr bytes_array
      else
        (case int2 (take 8 padded_text) of
           Inl e \<Rightarrow> Inl e
         | Inr n \<Rightarrow>
             (if n < 256 then pack_loop (drop 8 padded_text) (bytes_array @ [of_nat n])
              else Inl ValueError)))"
  by pat_completeness auto
termination
  by (relation "measure (\<lambda>(padded_text, bytes_array). length padded_text)") auto

declare pack_loop.simps [simp del]

text \<open>
  \<open>compress\<close>, from the text read from the input file to what is written: the bytes of the
  \<open>.huff\<close> file and the pair \<open>(serialized_tree, padding)\<close> pickled into the \<open>.hufftree\<close> file.
  The value the method returns, the sizes of the input file and of the \<open>.huff\<close> file as the
  file system reports them, is left out.
\<close>

definition compress ::
  "'a HuffmanCompressor \<Rightarrow> 'a list \<Rightarrow>
     error + ((8 word list \<times> 'a token list \<times> int) \<times> 'a HuffmanCompressor)" where
  "compress self text =
     (case calculate_frequencies self text of (fm, self1) \<Rightarrow>
       (case build_huffman_tree self1 of Inl e \<Rightarrow> Inl e | Inr (t, self2) \<Rightarrow>
         (case generate_codes self2 of Inl e \<Rightarrow> Inl e | Inr (cs, self3) \<Rightarrow>
           (case encode_loop (codes self3) text [] of Inl e \<Rightarrow> Inl e | Inr encoded_text \<Rightarrow>
             (let padding = padding_of encoded_text;
                  padded_text = encoded_text @ replicate (nat padding) (CHR ''0'')
              in (case pack_loop padded_text [] of Inl e \<Rightarrow> Inl e | Inr bytes_array \<Rightarrow>
                   (case serialize_tree self3 of Inl e \<Rightarrow> Inl e | Inr serialized_tree \<Rightarrow>
                      Inr ((bytes_array, serialized_tree, padding), self3))))))))"

section \<open>Decompression\<close>

text \<open>\<open>bin(byte)[2:]\<close>: the binary digits of a number, \<open>"0"\<close> for zero.\<close>

fun bin_digits :: "nat \<Rightarrow> string" where
  "bin_digits n =
     (if n = 0 then []
      else bin_digits (n div 2) @ [if n mod 2 = 0 then CHR ''0'' else CHR ''1''])"

declare bin_digits.simps [simp del]

definition bin :: "nat \<Rightarrow> string" where
  "bin n = (if n = 0 then ''0'' else bin_digits n)"

definition zfill :: "string \<Rightarrow> nat \<Rightarrow> string" where
  "zfill s width = replicate (width - length s) (CHR ''0'') @ s"

text \<open>The loop \<open>for byte in byte_data: bits += bin(byte)[2:].zfill(8)\<close>.\<close>

fun bits_loop :: "8 word list \<Rightarrow> string \<Rightarrow> string" where
  "bits_loop [] bits = bits"
| "bits_loop (byte # byte_data) bits = bits_loop byte_data (bits @ zfill (bin (unat byte)) 8)"

text \<open>
  \<open>bits[:-padding] if padding else bits\<close>: the slice stops \<open>padding\<close> characters before the
  end (at the start when there are fewer), and a negative \<open>padding\<close> makes \<open>-padding\<close> a
  position counted from the start.
\<close>

definition strip_padding :: "string \<Rightarrow> int \<Rightarrow> string" where
  "strip_padding bits padding =
     (if padding = 0 then bits
      else if padding > 0 then take (length bits - nat padding) bits
      else take (nat (- padding)) bits)"

text \<open>
  The decoding loop. \<open>current_node\<close> may be \<open>None\<close> (no tree, or a missing child): the
  attribute access on it raises \<open>AttributeError\<close>. Appending a \<open>char\<close> that is not a
  string raises \<open>TypeError\<close>.
\<close>

fun decode_loop ::
  "'a HuffmanNode option \<Rightarrow> 'a HuffmanNode option \<Rightarrow> string \<Rightarrow> 'a list \<Rightarrow> error + 'a list" where
  "decode_loop root current_node [] decoded_text = Inr decoded_text"
| "decode_loop root current_node (b # bits) decoded_text =
     (case current_node of
        None \<Rightarrow> Inl AttributeError
      | Some n \<Rightarrow>
          (case (if b = CHR ''0'' then left n else right n) of
             None \<Rightarrow> Inl AttributeError
           | Some m \<Rightarrow>
               (if is_leaf m then
                  (case char m of
                     Some (Sym c) \<Rightarrow> decode_loop root root bits (decoded_text @ [c])
                   | _ \<Rightarrow> Inl TypeError)
                else decode_loop root (Some m) bits decoded_text)))"

text \<open>
  \<open>decompress\<close>, from the pickled pair and the bytes of the \<open>.huff\<close> file to the decoded
  text. An exception while the tree is deserialized is caught and raised again as
  \<open>IOError\<close>.
\<close>

definition decompress ::
  "'a HuffmanCompressor \<Rightarrow> 8 word list \<Rightarrow> 'a token list \<times> int \<Rightarrow>
     error + ('a list \<times> 'a HuffmanCompressor)" where
  "decompress self byte_data metadata =
     (case metadata of (serialized_tree, padding) \<Rightarrow>
       (case deserialize_tree serialized_tree of
          Inl e \<Rightarrow> Inl IOError
        | Inr (t, rest) \<Rightarrow>
            (let self1 = self\<lparr>huffman_tree := t\<rparr>;
                 bits = strip_padding (bits_loop byte_data []) padding
             in (case decode_loop (huffman_tree self1) (huffman_tree self1) bits [] of
                   Inl e \<Rightarrow> Inl e
                 | Inr decoded_text \<Rightarrow> Inr (decoded_text, self1)))))"

text \<open>The two operations in sequence: what is compressed is handed to \<open>decompress\<close>.\<close>

definition roundtrip :: "'a HuffmanCompressor \<Rightarrow> 'a list \<Rightarrow> error + 'a list" where
  "roundtrip self text =
     (case compress self text of
        Inl e \<Rightarrow> Inl e
      | Inr ((byte_data, metadata), self1) \<Rightarrow>
          (case decompress self1 byte_data metadata of
             Inl e \<Rightarrow> Inl e
           | Inr (decoded_text, self2) \<Rightarrow> Inr decoded_text))"

section \<open>Notions used in the statements\<close>

text \<open>
  The nodes the builder makes: a leaf holds a character and has no children, any other
  node has both children.
\<close>

fun wf_tree :: "'a HuffmanNode \<Rightarrow> bool" where
  "wf_tree (HuffmanNode (Some (Sym c)) f None None) = True"
| "wf_tree (HuffmanNode None f (Some l) (Some r)) = (wf_tree l \<and> wf_tree r)"
| "wf_tree _ = False"

text \<open>The same tree with every frequency 0, as \<open>deserialize_tree\<close> rebuilds it.\<close>

fun zero_freq :: "'a HuffmanNode \<Rightarrow> 'a HuffmanNode"
  and zero_freq_child :: "'a HuffmanNode option \<Rightarrow> 'a HuffmanNode option"
where
  "zero_freq (HuffmanNode c f l r) = HuffmanNode c 0 (zero_freq_child l) (zero_freq_child r)"
| "zero_freq_child None = None"
| "zero_freq_child (Some n) = Some (zero_freq n)"

text \<open>The symbols at the leaves of a tree, from left to right.\<close>

fun leaves :: "'a HuffmanNode \<Rightarrow> 'a token list"
  and leaves_child :: "'a HuffmanNode option \<Rightarrow> 'a token list"
where
  "leaves (HuffmanNode c f l r) =
     (case c of Some ch \<Rightarrow> [ch] | None \<Rightarrow> leaves_child l @ leaves_child r)"
| "leaves_child None = []"
| "leaves_child (Some n) = leaves n"

text \<open>
  The leaves of a tree with the path that leads to each: \<open>0\<close> for a step to the left child,
  \<open>1\<close> for a step to the right child.
\<close>

fun paths :: "'a HuffmanNode \<Rightarrow> ('a token \<times> string) list"
  and paths_child :: "'a HuffmanNode option \<Rightarrow> ('a token \<times> string) list"
where
  "paths (HuffmanNode c f l r) =
     (case c of
        Some ch \<Rightarrow> [(ch, [])]
      | None \<Rightarrow> map (\<lambda>(k, p). (k, CHR ''0'' # p)) (paths_child l) @
                map (\<lambda>(k, p). (k, CHR ''1'' # p)) (paths_child r))"
| "paths_child None = []"
| "paths_child (Some n) = paths n"

text \<open>One store into the code table: the code of a leaf is the code of the node walked from, followed by the path to the leaf.\<close>

definition store :: "string \<Rightarrow> 'a token \<times> string \<Rightarrow> ('a token \<rightharpoonup> string) \<Rightarrow> ('a token \<rightharpoonup> string)" where
  "store code = (\<lambda>(k, p) m. m(k \<mapsto> code @ p))"

text \<open>Strings of the characters \<open>0\<close> and \<open>1\<close>.\<close>

definition binary :: "string \<Rightarrow> bool" where
  "binary s = (\<forall>c \<in> set s. c = CHR ''0'' \<or> c = CHR ''1'')"

section \<open>Notions used in the proofs about the priority queue\<close>

text \<open>
  The list is a binary heap laid out as \<open>heapq\<close> does: the parent of position \<open>c > 0\<close> is
  \<open>(c - 1) div 2\<close>. \<open>edge_ok h c\<close> says that the node at \<open>c\<close> is not smaller than its parent,
  \<open>heap_from s h\<close> that this holds for every position whose parent is at \<open>s\<close> or later, so that
  \<open>heap_from 0\<close> is the heap invariant.
\<close>

definition edge_ok :: "'a HuffmanNode list \<Rightarrow> nat \<Rightarrow> bool" where
  "edge_ok h c = (freq (h ! ((c - 1) div 2)) \<le> freq (h ! c))"

definition heap_from :: "nat \<Rightarrow> 'a HuffmanNode list \<Rightarrow> bool" where
  "heap_from s h = (\<forall>c. 0 < c \<and> c < length h \<and> s \<le> (c - 1) div 2 \<longrightarrow> edge_ok h c)"

text \<open>\<open>under s p\<close>: position \<open>p\<close> is \<open>s\<close> or lies below \<open>s\<close> in the heap.\<close>

function under :: "nat \<Rightarrow> nat \<Rightarrow> bool" where
  "under s p = (if p \<le> s then p = s else under s ((p - 1) div 2))"
  by pat_completeness auto
termination
  by (relation "measure (\<lambda>(s, p). p)") auto

declare under.simps [simp del]

text \<open>
  The state of the two sifting loops: the entry at \<open>p\<close> is a hole. Every edge that does not
  touch the hole is in order, and the children of the hole are not smaller than its parent.
\<close>

definition hole_inv :: "nat \<Rightarrow> 'a HuffmanNode list \<Rightarrow> nat \<Rightarrow> bool" where
  "hole_inv s h p =
     (p < length h \<and> under s p \<and>
      (\<forall>c. 0 < c \<and> c < length h \<and> s \<le> (c - 1) div 2 \<and> c \<noteq> p \<and> (c - 1) div 2 \<noteq> p
           \<longrightarrow> edge_ok h c) \<and>
      (s < p \<longrightarrow> (\<forall>c. 0 < c \<and> c < length h \<and> (c - 1) div 2 = p
                     \<longrightarrow> freq (h ! ((p - 1) div 2)) \<le> freq (h ! c))))"

definition below_children :: "'a HuffmanNode \<Rightarrow> 'a HuffmanNode list \<Rightarrow> nat \<Rightarrow> bool" where
  "below_children x h p =
     (\<forall>c. 0 < c \<and> c < length h \<and> (c - 1) div 2 = p \<longrightarrow> freq x \<le> freq (h ! c))"

section \<open>Notions used in the proof about code lengths\<close>

text \<open>
  A tree over the nodes that are queued at some moment of the building loop: these are the
  atoms, and the inner nodes are the ones the loop makes later, with the frequency it
  gives them. \<open>flatten\<close> is the tree of \<open>HuffmanNode\<close>s it stands for.
\<close>

datatype 'a atree = Atom "'a HuffmanNode" | ANode nat "'a atree" "'a atree"

fun flatten :: "'a atree \<Rightarrow> 'a HuffmanNode" where
  "flatten (Atom x) = x"
| "flatten (ANode w a b) = HuffmanNode None w (Some (flatten a)) (Some (flatten b))"

fun weight :: "'a atree \<Rightarrow> nat" where
  "weight (Atom x) = freq x"
| "weight (ANode w a b) = w"

fun consistent :: "'a atree \<Rightarrow> bool" where
  "consistent (Atom x) = True"
| "consistent (ANode w a b) = (w = weight a + weight b \<and> consistent a \<and> consistent b)"

fun atoms :: "'a atree \<Rightarrow> 'a HuffmanNode list" where
  "atoms (Atom x) = [x]"
| "atoms (ANode w a b) = atoms a @ atoms b"

text \<open>Every node with its depth and weight; every atom with its depth.\<close>

fun nodes :: "nat \<Rightarrow> 'a atree \<Rightarrow> (nat \<times> nat) list" where
  "nodes d (Atom x) = [(d, freq x)]"
| "nodes d (ANode w a b) = (d, w) # nodes (Suc d) a @ nodes (Suc d) b"

fun atoms_at :: "nat \<Rightarrow> 'a atree \<Rightarrow> (nat \<times> 'a HuffmanNode) list" where
  "atoms_at d (Atom x) = [(d, x)]"
| "atoms_at d (ANode w a b) = atoms_at (Suc d) a @ atoms_at (Suc d) b"

text \<open>The first atom equal to \<open>m\<close> is replaced by the tree \<open>s\<close>.\<close>

fun split :: "'a HuffmanNode \<Rightarrow> 'a atree \<Rightarrow> 'a atree \<Rightarrow> 'a atree" where
  "split m s (Atom x) = (if x = m then s else Atom x)"
| "split m s (ANode w a b) =
     (if m \<in> set (atoms a) then ANode w (split m s a) b else ANode w a (split m s b))"

text \<open>A node that is heavier than another one is not deeper.\<close>

definition depth_mono :: "'a atree \<Rightarrow> bool" where
  "depth_mono A =
     (\<forall>du wu dv wv. (du, wu) \<in> set (nodes 0 A) \<and> (dv, wv) \<in> set (nodes 0 A) \<and> wv < wu
        \<longrightarrow> du \<le> dv)"

section \<open>The heap operations keep the queued nodes\<close>

lemma mset_update_move:
  assumes "i < length h" "j < length h" "i \<noteq> j"
  shows "mset (h[i := h ! j, j := x]) = mset (h[i := x])"
proof -
  let ?ls = "h[i := x]"
  have "mset (?ls[j := ?ls ! i, i := ?ls ! j]) = mset ?ls"
    using assms by (intro mset_swap) auto
  moreover have "?ls[j := ?ls ! i, i := ?ls ! j] = h[i := h ! j, j := x]"
    using assms by (simp add: list_update_swap [of i j])
  ultimately show ?thesis by simp
qed

lemma length_siftdown_loop [simp]: "length (siftdown_loop h s x p) = length h"
  by (induction h s x p rule: siftdown_loop.induct)
     (subst siftdown_loop.simps, simp add: Let_def)

lemma mset_siftdown_loop:
  "p < length h \<Longrightarrow> mset (siftdown_loop h s x p) = mset (h[p := x])"
proof (induction h s x p rule: siftdown_loop.induct)
  case (1 heap startpos newitem pos)
  show ?case
  proof (cases "pos > startpos \<and> lt newitem (heap ! ((pos - 1) div 2))")
    case True
    then have lt: "(pos - 1) div 2 < pos" by auto
    with 1(2) have pp: "(pos - 1) div 2 < length heap" by simp
    have "mset (siftdown_loop heap startpos newitem pos)
        = mset (siftdown_loop (heap[pos := heap ! ((pos - 1) div 2)]) startpos newitem ((pos - 1) div 2))"
      using True by (subst siftdown_loop.simps) (simp add: Let_def)
    also have "\<dots> = mset (heap[pos := heap ! ((pos - 1) div 2), (pos - 1) div 2 := newitem])"
      using True pp by (intro "1.IH") auto
    also have "\<dots> = mset (heap[pos := newitem])"
      using 1(2) pp lt by (intro mset_update_move) auto
    finally show ?thesis .
  next
    case False
    then show ?thesis by (subst siftdown_loop.simps) (auto simp: Let_def)
  qed
qed

lemma mset_siftdown: "p < length h \<Longrightarrow> mset (siftdown h s p) = mset h"
  by (simp add: siftdown_def mset_siftdown_loop)

lemma siftup_loop_hole:
  "p < length h \<Longrightarrow> siftup_loop h p = (h1, p1) \<Longrightarrow>
   length h1 = length h \<and> p1 < length h \<and> p \<le> p1 \<and> mset (h1[p1 := x]) = mset (h[p := x])"
proof (induction h p arbitrary: h1 p1 rule: siftup_loop.induct)
  case (1 heap pos)
  show ?case
  proof (cases "2 * pos + 1 < length heap")
    case True
    define c where "c = (if 2 * pos + 1 + 1 < length heap \<and>
                            \<not> lt (heap ! (2 * pos + 1)) (heap ! (2 * pos + 1 + 1))
                          then 2 * pos + 1 + 1 else 2 * pos + 1)"
    have c: "c < length heap" "pos < c" using True by (auto simp: c_def)
    have rec: "siftup_loop heap pos = siftup_loop (heap[pos := heap ! c]) c"
      using True by (subst siftup_loop.simps) (simp add: Let_def c_def)
    with 1(3) have r: "siftup_loop (heap[pos := heap ! c]) c = (h1, p1)" by simp
    note IH = "1.IH" [OF refl refl True refl refl, folded c_def]
    have "length h1 = length (heap[pos := heap ! c]) \<and> p1 < length (heap[pos := heap ! c]) \<and> c \<le> p1 \<and>
          mset (h1[p1 := x]) = mset (heap[pos := heap ! c, c := x])"
      using c r by (intro IH) auto
    moreover have "mset (heap[pos := heap ! c, c := x]) = mset (heap[pos := x])"
      using c 1(2) by (intro mset_update_move) auto
    ultimately show ?thesis using c by auto
  next
    case False
    with 1(3) have "h1 = heap" "p1 = pos"
      by (subst (asm) siftup_loop.simps, simp add: Let_def)+
    with 1(2) show ?thesis by simp
  qed
qed

lemma length_siftup [simp]: "p < length h \<Longrightarrow> length (siftup h p) = length h"
  by (cases "siftup_loop h p")
     (auto simp: siftup_def siftdown_def Let_def dest: siftup_loop_hole)

lemma mset_siftup: "p < length h \<Longrightarrow> mset (siftup h p) = mset h"
proof -
  assume p: "p < length h"
  obtain h1 p1 where s: "siftup_loop h p = (h1, p1)" by (cases "siftup_loop h p")
  from siftup_loop_hole [OF p s, of "h ! p"] have
    *: "length h1 = length h" "p1 < length h" "mset (h1[p1 := h ! p]) = mset h"
    by auto
  then show ?thesis
    by (simp add: siftup_def s Let_def mset_siftdown)
qed

lemma foldl_siftup:
  "\<forall>i \<in> set is. i < length h \<Longrightarrow>
   length (foldl siftup h is) = length h \<and> mset (foldl siftup h is) = mset h"
  by (induction "is" arbitrary: h) (auto simp: mset_siftup)

lemma mset_heapify: "mset (heapify x) = mset x"
proof -
  have "\<forall>i \<in> set (rev [0 ..< length x div 2]). i < length x" by auto
  from foldl_siftup [OF this] show ?thesis by (simp add: heapify_def)
qed

lemma mset_heappush: "mset (heappush h x) = add_mset x (mset h)"
  by (simp add: heappush_def mset_siftdown)

lemma mset_heappop:
  assumes "heappop h = Inr (x, q)"
  shows "mset h = add_mset x (mset q)"
proof (cases h rule: rev_cases)
  case Nil
  with assms show ?thesis by (simp add: heappop_def)
next
  case (snoc h1 y)
  show ?thesis
  proof (cases "h1 = []")
    case True
    with snoc assms show ?thesis by (auto simp: heappop_def)
  next
    case False
    then have 0: "0 < length h1" by simp
    with snoc assms False have x: "x = h1 ! 0" and q: "q = siftup (h1[0 := y]) 0"
      by (auto simp: heappop_def)
    have "mset q = mset (h1[0 := y])" using 0 by (simp add: q mset_siftup)
    also have "\<dots> = add_mset y (mset h1 - {#h1 ! 0#})"
      using 0 by (simp add: mset_update)
    finally have "add_mset x (mset q) = add_mset y (mset h1)"
      using 0 by (simp add: x)
    with snoc show ?thesis by simp
  qed
qed

section \<open>Well-formed trees and their serialization\<close>

lemma wf_tree_induct [consumes 1, case_names Leaf Internal]:
  assumes "wf_tree n"
    and "\<And>c f. P (HuffmanNode (Some (Sym c)) f None None)"
    and "\<And>f l r. wf_tree l \<Longrightarrow> wf_tree r \<Longrightarrow> P l \<Longrightarrow> P r \<Longrightarrow>
           P (HuffmanNode None f (Some l) (Some r))"
  shows "P n"
  using assms by (induction n rule: wf_tree.induct) auto

lemma wf_tree_cases:
  assumes "wf_tree n"
  obtains (Leaf) c f where "n = HuffmanNode (Some (Sym c)) f None None"
  | (Internal) f l r where "n = HuffmanNode None f (Some l) (Some r)" "wf_tree l" "wf_tree r"
  using assms by (induction n rule: wf_tree.induct) auto

lemma deserialize_serialize:
  "wf_tree t \<Longrightarrow> deserialize_tree (serialize_node t @ rest) = Inr (Some (zero_freq t), rest)"
proof (induction t arbitrary: rest rule: wf_tree_induct)
  case (Leaf c f)
  show ?case by (simp add: deserialize_tree.simps)
next
  case (Internal f l r)
  then show ?case by (simp add: deserialize_tree.simps)
qed

lemma generate_codes_zero_freq:
  "generate_codes_node (zero_freq n) code cs = generate_codes_node n code cs"
  "generate_codes_child (zero_freq_child m) code cs = generate_codes_child m code cs"
  by (induction n code cs and m code cs rule: generate_codes_node_generate_codes_child.induct)
     (auto split: option.splits)

lemma wf_zero_freq: "wf_tree t \<Longrightarrow> wf_tree (zero_freq t)"
  by (induction t rule: wf_tree_induct) auto

section \<open>The tree builder\<close>

lemma heappop_nonempty: "h \<noteq> [] \<Longrightarrow> \<exists>x q. heappop h = Inr (x, q)"
  by (simp add: heappop_def Let_def)

lemma build_loop_wf:
  "pq \<noteq> [] \<Longrightarrow> \<forall>t \<in> set pq. wf_tree t \<Longrightarrow>
   \<exists>t. build_loop pq = Inr [t] \<and> wf_tree t \<and> mset (leaves t) = (\<Sum>n \<in># mset pq. mset (leaves n))"
proof (induction pq rule: build_loop.induct)
  case (1 pq)
  show ?case
  proof (cases "length pq > 1")
    case False
    with 1(2) obtain t where "pq = [t]" by (cases pq) auto
    with 1(3) show ?thesis by (subst build_loop.simps) simp
  next
    case True
    then have "pq \<noteq> []" by auto
    then obtain l pq1 where p1: "heappop pq = Inr (l, pq1)"
      using heappop_nonempty by blast
    note m1 = mset_heappop [OF p1]
    with True have "pq1 \<noteq> []" by (cases pq1) (auto dest: arg_cong [where f = size])
    then obtain r pq2 where p2: "heappop pq1 = Inr (r, pq2)"
      using heappop_nonempty by blast
    note m2 = mset_heappop [OF p2]
    let ?n = "HuffmanNode None (freq l + freq r) (Some l) (Some r)"
    let ?pq = "heappush pq2 ?n"
    have m3: "mset ?pq = add_mset ?n (mset pq2)" by (rule mset_heappush)
    have set: "set pq = insert l (insert r (set pq2))"
      using m1 m2 by (metis set_mset_add_mset_insert set_mset_mset)
    have ne: "?pq \<noteq> []" using m3 by auto
    have wf: "\<forall>t \<in> set ?pq. wf_tree t"
    proof -
      have "set ?pq = insert ?n (set pq2)" using m3 by (metis set_mset_add_mset_insert set_mset_mset)
      with 1(3) set show ?thesis by auto
    qed
    from "1.IH" [OF True p1 refl p2 refl ne wf]
    obtain t where t: "build_loop ?pq = Inr [t]" "wf_tree t"
      "mset (leaves t) = (\<Sum>n \<in># mset ?pq. mset (leaves n))" by blast
    have "build_loop pq = build_loop ?pq"
      using True p1 p2 by (subst build_loop.simps) simp
    moreover have "(\<Sum>n \<in># mset ?pq. mset (leaves n)) = (\<Sum>n \<in># mset pq. mset (leaves n))"
      by (simp add: m1 m2 m3)
    ultimately show ?thesis using t by auto
  qed
qed

lemma count_elem_keys:
  "map fst (count_elem m c) = (if c \<in> fst ` set m then map fst m else map fst m @ [c])"
  by (induction m c rule: count_elem.induct) auto

lemma foldl_count_elem_keys:
  "distinct (map fst m) \<Longrightarrow>
   distinct (map fst (foldl count_elem m text)) \<and>
   set (map fst (foldl count_elem m text)) = set (map fst m) \<union> set text"
proof (induction "text" arbitrary: m)
  case Nil
  then show ?case by simp
next
  case (Cons c rest)
  have d: "distinct (map fst (count_elem m c))"
    using Cons.prems by (simp add: count_elem_keys)
  from Cons.IH [OF d] show ?case by (auto simp: count_elem_keys)
qed

lemma Counter_keys: "distinct (map fst (Counter text))" "set (map fst (Counter text)) = set text"
  using foldl_count_elem_keys [of "[]" "text"] by (simp_all add: Counter_def)

lemma Counter_empty: "Counter text = [] \<longleftrightarrow> text = []"
  using Counter_keys(2) [of "text"] by (metis list.map_disc_iff set_empty)


lemma build_huffman_tree_wf:
  assumes "frequency_map self \<noteq> []"
  shows "\<exists>t. build_huffman_tree self = Inr (Some t, self\<lparr>huffman_tree := Some t\<rparr>) \<and> wf_tree t \<and>
             mset (leaves t) = mset (map (Sym \<circ> fst) (frequency_map self))"
proof -
  let ?fm = "frequency_map self"
  let ?ls = "map (\<lambda>(c, f). HuffmanNode (Some (Sym c)) f None None) ?fm"
  let ?pq = "heapify ?ls"
  have m: "mset ?pq = mset ?ls" by (rule mset_heapify)
  then have s: "set ?pq = set ?ls" by (rule mset_eq_setD)
  have ne: "?pq \<noteq> []" using m assms by auto
  have wf: "\<forall>t \<in> set ?pq. wf_tree t" unfolding s by auto
  from build_loop_wf [OF ne wf] obtain t where
    t: "build_loop ?pq = Inr [t]" "wf_tree t"
       "mset (leaves t) = (\<Sum>n \<in># mset ?pq. mset (leaves n))" by blast
  have "(\<Sum>n \<in># mset (map (\<lambda>(c, f). HuffmanNode (Some (Sym c)) f None None) fm).
            mset (leaves n)) = mset (map (Sym \<circ> fst) fm)" for fm
    by (induction fm) auto
  with t m show ?thesis using assms
    by (auto simp: build_huffman_tree_def Let_def)
qed

section \<open>The state after \<open>compress\<close>\<close>

lemma compress_codes:
  "compress self text = Inr (out, self1) \<Longrightarrow>
   \<exists>t. huffman_tree self1 = Some t \<and> codes self1 = generate_codes_node t [] Map.empty"
  by (auto simp: compress_def calculate_frequencies_def generate_codes_def
      build_huffman_tree_def Let_def
      split: sum.splits prod.splits option.splits if_splits)

section \<open>Code tables and paths\<close>

lemma leaves_paths:
  "map fst (paths n) = leaves n"
  "map fst (paths_child m) = leaves_child m"
  for n :: "'a HuffmanNode" and m :: "'a HuffmanNode option"
  by (induction n and m rule: paths_paths_child.induct)
     (auto split: option.splits simp: case_prod_beta comp_def)

lemma paths_zero_freq:
  "paths (zero_freq n) = paths n"
  "paths_child (zero_freq_child m) = paths_child m"
  for n :: "'a HuffmanNode" and m :: "'a HuffmanNode option"
  by (induction n and m rule: paths_paths_child.induct) (auto split: option.splits)

lemma store_comp:
  "store code \<circ> (\<lambda>(k, p). (k, b # p)) = store (code @ [b])"
  by (auto simp: store_def fun_eq_iff)

lemma generate_codes_paths:
  "code \<noteq> [] \<or> char n = None \<Longrightarrow>
     generate_codes_node n code cs = fold (store code) (paths n) cs"
  "code \<noteq> [] \<Longrightarrow> generate_codes_child m code cs = fold (store code) (paths_child m) cs"
proof (induction n code cs and m code cs rule: generate_codes_node_generate_codes_child.induct)
  case (1 c f l r code cs)
  show ?case
  proof (cases c)
    case None
    with 1 show ?thesis by (simp add: fold_map store_comp)
  next
    case (Some ch)
    with 1(3) show ?thesis by (simp add: store_def)
  qed
qed simp_all

lemma dom_fold_store: "dom (fold (store code) ps cs) = dom cs \<union> fst ` set ps"
  by (induction ps arbitrary: cs) (auto simp: store_def)

lemma fold_store_Some:
  "fold (store code) ps cs k = Some v \<Longrightarrow>
   cs k = Some v \<or> (\<exists>p. (k, p) \<in> set ps \<and> v = code @ p)"
proof (induction ps arbitrary: cs)
  case Nil
  then show ?case by simp
next
  case (Cons a ps)
  obtain k1 p1 where a: "a = (k1, p1)" by (cases a)
  from Cons.prems have "fold (store code) ps (cs(k1 \<mapsto> code @ p1)) k = Some v"
    by (simp add: a store_def)
  from Cons.IH [OF this] show ?case
    by (auto simp: a split: if_splits)
qed

lemma fold_store_other:
  "k \<notin> fst ` set ps \<Longrightarrow> fold (store code) ps cs k = cs k"
  by (induction ps arbitrary: cs) (auto simp: store_def)

lemma fold_store_distinct:
  "distinct (map fst ps) \<Longrightarrow> (k, p) \<in> set ps \<Longrightarrow> fold (store code) ps cs k = Some (code @ p)"
proof (induction ps arbitrary: cs)
  case Nil
  then show ?case by simp
next
  case (Cons a ps)
  show ?case
  proof (cases "(k, p) \<in> set ps")
    case True
    with Cons show ?thesis by simp
  next
    case False
    with Cons.prems have a: "a = (k, p)" by auto
    with Cons.prems(1) have "k \<notin> set (map fst ps)" by simp
    then have "k \<notin> fst ` set ps" by simp
    then show ?thesis by (simp add: fold_store_other) (simp add: a store_def)
  qed
qed

lemma paths_internal_nonempty:
  "wf_tree n \<Longrightarrow> char n = None \<Longrightarrow> (k, p) \<in> set (paths n) \<Longrightarrow> p \<noteq> []"
  by (erule wf_tree_cases) auto

lemma paths_leaf: "wf_tree n \<Longrightarrow> char n \<noteq> None \<Longrightarrow> \<exists>c. paths n = [(Sym c, [])]"
  by (erule wf_tree_cases) auto

lemma paths_Sym: "wf_tree n \<Longrightarrow> (k, p) \<in> set (paths n) \<Longrightarrow> \<exists>c. k = Sym c"
  by (induction n arbitrary: k p rule: wf_tree_induct) auto

lemma paths_binary:
  "wf_tree n \<Longrightarrow> (k, p) \<in> set (paths n) \<Longrightarrow> c \<in> set p \<Longrightarrow> c = CHR ''0'' \<or> c = CHR ''1''"
  by (induction n arbitrary: k p rule: wf_tree_induct) fastforce+

lemma paths_prefix_free:
  "wf_tree n \<Longrightarrow> (k1, p1) \<in> set (paths n) \<Longrightarrow> (k2, p2) \<in> set (paths n) \<Longrightarrow>
   prefix p1 p2 \<Longrightarrow> k1 = k2 \<and> p1 = p2"
  by (induction n arbitrary: k1 p1 k2 p2 rule: wf_tree_induct) auto

section \<open>Decoding along paths\<close>

lemma decode_loop_left:
  "decode_loop root (Some (HuffmanNode c f (Some m) r)) (CHR ''0'' # bits) acc =
     (if is_leaf m then
        (case char m of
           Some (Sym c) \<Rightarrow> decode_loop root root bits (acc @ [c])
         | _ \<Rightarrow> Inl TypeError)
      else decode_loop root (Some m) bits acc)"
  by simp

lemma decode_loop_right:
  "b \<noteq> CHR ''0'' \<Longrightarrow>
   decode_loop root (Some (HuffmanNode c f l (Some m))) (b # bits) acc =
     (if is_leaf m then
        (case char m of
           Some (Sym c) \<Rightarrow> decode_loop root root bits (acc @ [c])
         | _ \<Rightarrow> Inl TypeError)
      else decode_loop root (Some m) bits acc)"
  by simp


lemma paths_internal_cases:
  assumes "(k, p) \<in> set (paths (HuffmanNode None f (Some l) (Some r)))"
  obtains (Left) q where "p = CHR ''0'' # q" "(k, q) \<in> set (paths l)"
  | (Right) q where "p = CHR ''1'' # q" "(k, q) \<in> set (paths r)"
proof -
  from assms have "(k, p) \<in> (\<lambda>(k, p). (k, CHR ''0'' # p)) ` set (paths l) \<or>
                   (k, p) \<in> (\<lambda>(k, p). (k, CHR ''1'' # p)) ` set (paths r)"
    by simp
  then show thesis
  proof
    assume "(k, p) \<in> (\<lambda>(k, p). (k, CHR ''0'' # p)) ` set (paths l)"
    then obtain q where "p = CHR ''0'' # q" "(k, q) \<in> set (paths l)" by (auto simp: image_iff)
    then show thesis by (rule Left)
  next
    assume "(k, p) \<in> (\<lambda>(k, p). (k, CHR ''1'' # p)) ` set (paths r)"
    then obtain q where "p = CHR ''1'' # q" "(k, q) \<in> set (paths r)" by (auto simp: image_iff)
    then show thesis by (rule Right)
  qed
qed

lemma decode_child:
  assumes wf: "wf_tree m" and qm: "(Sym c, q) \<in> set (paths m)"
    and IH: "q \<noteq> [] \<Longrightarrow> decode_loop root (Some m) (q @ rest) acc = X"
    and X: "q = [] \<Longrightarrow> decode_loop root root rest (acc @ [c]) = X"
  shows "(if is_leaf m then
            (case char m of
               Some (Sym c) \<Rightarrow> decode_loop root root (q @ rest) (acc @ [c])
             | _ \<Rightarrow> Inl TypeError)
          else decode_loop root (Some m) (q @ rest) acc) = X"
  using wf
proof (cases m rule: wf_tree_cases)
  case (Leaf c1 f1)
  with qm have "c1 = c" "q = []" by auto
  with Leaf X show ?thesis by (simp add: is_leaf_def)
next
  case (Internal f1 l1 r1)
  with qm have "q \<noteq> []" by (auto simp: image_iff)
  from IH [OF this] Internal(1) show ?thesis by (simp add: is_leaf_def)
qed


lemma decode_loop_path:
  "wf_tree n \<Longrightarrow> (Sym c, p) \<in> set (paths n) \<Longrightarrow> p \<noteq> [] \<Longrightarrow>
   decode_loop root (Some n) (p @ rest) acc = decode_loop root root rest (acc @ [c])"
proof (induction n arbitrary: p rule: wf_tree_induct)
  case (Leaf c f)
  then show ?case by simp
next
  case (Internal f l r)
  from Internal.prems(1) show ?case
  proof (cases rule: paths_internal_cases)
    case (Left q)
    have "(if is_leaf l then
            (case char l of
               Some (Sym c) \<Rightarrow> decode_loop root root (q @ rest) (acc @ [c])
             | _ \<Rightarrow> Inl TypeError)
          else decode_loop root (Some l) (q @ rest) acc) = decode_loop root root rest (acc @ [c])"
      using Internal.hyps(1) Left(2)
    proof (rule decode_child)
      show "q \<noteq> [] \<Longrightarrow>
        decode_loop root (Some l) (q @ rest) acc = decode_loop root root rest (acc @ [c])"
        using Internal.IH(1) [OF Left(2)] .
    qed simp
    then show ?thesis unfolding Left(1) append_Cons decode_loop_left .
  next
    case (Right q)
    have "CHR ''1'' \<noteq> CHR ''0''" by simp
    note step = decode_loop_right [OF this]
    have "(if is_leaf r then
            (case char r of
               Some (Sym c) \<Rightarrow> decode_loop root root (q @ rest) (acc @ [c])
             | _ \<Rightarrow> Inl TypeError)
          else decode_loop root (Some r) (q @ rest) acc) = decode_loop root root rest (acc @ [c])"
      using Internal.hyps(2) Right(2)
    proof (rule decode_child)
      show "q \<noteq> [] \<Longrightarrow>
        decode_loop root (Some r) (q @ rest) acc = decode_loop root root rest (acc @ [c])"
        using Internal.IH(2) [OF Right(2)] .
    qed simp
    then show ?thesis unfolding Right(1) append_Cons step .
  qed
qed

lemma partial_child:
  assumes wf: "wf_tree m" and pm: "(k, p) \<in> set (paths m)" and s: "strict_prefix q p"
    and IH: "decode_loop root (Some m) q acc = Inr acc"
  shows "(if is_leaf m then
            (case char m of
               Some (Sym c) \<Rightarrow> decode_loop root root q (acc @ [c])
             | _ \<Rightarrow> Inl TypeError)
          else decode_loop root (Some m) q acc) = Inr acc"
  using wf
proof (cases m rule: wf_tree_cases)
  case (Leaf c1 f1)
  with pm have "p = []" by auto
  with s show ?thesis by simp
next
  case (Internal f1 l1 r1)
  with IH show ?thesis by (simp add: is_leaf_def)
qed

lemma decode_loop_partial:
  "wf_tree n \<Longrightarrow> (k, p) \<in> set (paths n) \<Longrightarrow> strict_prefix q p \<Longrightarrow>
   decode_loop root (Some n) q acc = Inr acc"
proof (induction n arbitrary: p q rule: wf_tree_induct)
  case (Leaf c f)
  then show ?case by simp
next
  case (Internal f l r)
  show ?case
  proof (cases q)
    case Nil
    then show ?thesis by simp
  next
    case (Cons b q1)
    from Internal.prems(1) show ?thesis
    proof (cases rule: paths_internal_cases)
      case (Left p1)
      with Internal.prems(2) Cons have b: "b = CHR ''0''" and s: "strict_prefix q1 p1"
        by auto
      from partial_child [OF Internal.hyps(1) Left(2) s Internal.IH(1) [OF Left(2) s]]
      show ?thesis unfolding Cons b decode_loop_left .
    next
      case (Right p1)
      with Internal.prems(2) Cons have b: "b = CHR ''1''" and s: "strict_prefix q1 p1"
        by auto
      have "CHR ''1'' \<noteq> CHR ''0''" by simp
      note step = decode_loop_right [OF this]
      from partial_child [OF Internal.hyps(2) Right(2) s Internal.IH(2) [OF Right(2) s]]
      show ?thesis unfolding Cons b step .
    qed
  qed
qed

lemma encode_loop_concat:
  "\<forall>c \<in> set msg. cs (Sym c) \<noteq> None \<Longrightarrow>
   encode_loop cs msg acc = Inr (acc @ concat (map (\<lambda>c. the (cs (Sym c))) msg))"
  by (induction msg arbitrary: acc) auto

lemma decode_loop_concat:
  assumes "wf_tree n" "char n = None"
    and "\<forall>c \<in> set msg. (Sym c, f c) \<in> set (paths n)"
  shows "decode_loop (Some n) (Some n) (concat (map f msg) @ rest) acc
         = decode_loop (Some n) (Some n) rest (acc @ msg)"
  using assms(3)
proof (induction msg arbitrary: acc)
  case Nil
  then show ?case by simp
next
  case (Cons c msg)
  then have c: "(Sym c, f c) \<in> set (paths n)" by simp
  from paths_internal_nonempty [OF assms(1,2) c] have ne: "f c \<noteq> []" .
  have "decode_loop (Some n) (Some n) (f c @ (concat (map f msg) @ rest)) acc
        = decode_loop (Some n) (Some n) (concat (map f msg) @ rest) (acc @ [c])"
    by (rule decode_loop_path [OF assms(1) c ne])
  with Cons show ?case by simp
qed

section \<open>Packing bits into bytes and back\<close>

lemma int2_loop_snoc:
  "int2_loop a (s @ [d]) =
     (case int2_loop a s of
        Inl e \<Rightarrow> Inl e
      | Inr v \<Rightarrow> (if d = CHR ''0'' then Inr (2 * v)
                  else if d = CHR ''1'' then Inr (2 * v + 1) else Inl ValueError))"
  by (induction s arbitrary: a) auto

lemma bin_digits_0 [simp]: "bin_digits 0 = []"
  by (subst bin_digits.simps) simp

lemma bin_digits_double:
  "v \<noteq> 0 \<Longrightarrow> bin_digits (2 * v) = bin_digits v @ [CHR ''0'']"
  "bin_digits (Suc (2 * v)) = bin_digits v @ [CHR ''1'']"
  by (subst bin_digits.simps, simp)+

lemma int2_loop_digits:
  "binary s \<Longrightarrow>
   \<exists>v. int2_loop 0 s = Inr v \<and> v < 2 ^ length s \<and>
       replicate (length s - length (bin_digits v)) (CHR ''0'') @ bin_digits v = s"
proof (induction s rule: rev_induct)
  case Nil
  then show ?case by simp
next
  case (snoc d s)
  then have "binary s" and d: "d = CHR ''0'' \<or> d = CHR ''1''" by (auto simp: binary_def)
  with snoc.IH obtain v where v: "int2_loop 0 s = Inr v" "v < 2 ^ length s"
    and r: "replicate (length s - length (bin_digits v)) (CHR ''0'') @ bin_digits v = s"
    by blast
  from r have len: "length (bin_digits v) \<le> length s"
    by (metis append_eq_conv_conj diff_le_self length_append length_replicate le_add2 )
  show ?case
  proof (cases "d = CHR ''0''")
    case True
    show ?thesis
    proof (cases "v = 0")
      case True
      with r have "s = replicate (length s) (CHR ''0'')" by simp
      then have "replicate (Suc (length s)) (CHR ''0'') = s @ [d]"
        using \<open>d = CHR ''0''\<close> by (metis replicate_Suc replicate_append_same)
      with v True \<open>d = CHR ''0''\<close> show ?thesis by (simp add: int2_loop_snoc)
    next
      case False
      have "replicate (Suc (length s) - Suc (length (bin_digits v))) (CHR ''0'') @ bin_digits v @ [d] = s @ [d]"
        using r by simp
      with v False True show ?thesis
        by (simp add: int2_loop_snoc bin_digits_double)
    qed
  next
    case False
    with d have d1: "d = CHR ''1''" by simp
    have "replicate (Suc (length s) - Suc (length (bin_digits v))) (CHR ''0'') @ bin_digits v @ [d] = s @ [d]"
      using r by simp
    with v d1 show ?thesis
      by (simp add: int2_loop_snoc bin_digits_double)
  qed
qed


lemma byte_roundtrip:
  assumes "binary s" "length s = 8"
  shows "\<exists>v. int2 s = Inr v \<and> v < 256 \<and> zfill (bin (unat (of_nat v :: 8 word))) 8 = s"
proof -
  from int2_loop_digits [OF assms(1)] obtain v where
    v: "int2_loop 0 s = Inr v" "v < 2 ^ length s" and
    r: "replicate (length s - length (bin_digits v)) (CHR ''0'') @ bin_digits v = s"
    by blast
  from v(2) assms(2) have v256: "v < 256" by simp
  then have u: "unat (of_nat v :: 8 word) = v"
    by (simp add: unat_of_nat)
  from assms(2) have ne: "s \<noteq> []" by auto
  have "zfill (bin v) 8 = s"
  proof (cases "v = 0")
    case True
    have "replicate 7 (CHR ''0'') @ ''0'' = replicate 8 (CHR ''0'')"
      by (simp add: eval_nat_numeral)
    with True r assms(2) show ?thesis by (simp add: zfill_def bin_def)
  next
    case False
    with r assms(2) show ?thesis by (simp add: zfill_def bin_def)
  qed
  with v(1) v256 u ne show ?thesis by (simp add: int2_def)
qed

lemma binary_append [simp]: "binary (a @ b) \<longleftrightarrow> binary a \<and> binary b"
  by (auto simp: binary_def)

lemma binary_replicate [simp]: "binary (replicate n (CHR ''0''))"
  by (simp add: binary_def)

lemma binary_take_drop: "binary s \<Longrightarrow> binary (take n s) \<and> binary (drop n s)"
  by (metis append_take_drop_id binary_append)

lemma pack_unpack:
  "binary s \<Longrightarrow> length s = 8 * k \<Longrightarrow>
   \<exists>bs. pack_loop s acc = Inr (acc @ bs) \<and> length bs = k \<and> bits_loop bs b0 = b0 @ s"
proof (induction k arbitrary: s acc b0)
  case 0
  then show ?case by (subst pack_loop.simps) simp
next
  case (Suc k)
  from Suc.prems have ne: "s \<noteq> []" by auto
  from Suc.prems have l8: "length (take 8 s) = 8" and ld: "length (drop 8 s) = 8 * k" by auto
  from binary_take_drop [OF Suc.prems(1)] have bt: "binary (take 8 s)" and bd: "binary (drop 8 s)"
    by auto
  from byte_roundtrip [OF bt l8] obtain v where
    v: "int2 (take 8 s) = Inr v" "v < 256" "zfill (bin (unat (of_nat v :: 8 word))) 8 = take 8 s"
    by blast
  from Suc.IH [OF bd ld, of "acc @ [of_nat v]" "b0 @ take 8 s"] obtain bs where
    bs: "pack_loop (drop 8 s) (acc @ [of_nat v]) = Inr ((acc @ [of_nat v]) @ bs)"
        "length bs = k" "bits_loop bs (b0 @ take 8 s) = (b0 @ take 8 s) @ drop 8 s"
    by blast
  have "pack_loop s acc = Inr (acc @ (of_nat v # bs))"
    using ne v bs(1) by (subst pack_loop.simps) simp
  moreover have "bits_loop (of_nat v # bs) b0 = b0 @ s"
    using v(3) bs(3) by simp
  ultimately show ?case using bs(2) by (intro exI [of _ "of_nat v # bs"]) simp
qed

lemma padding_of_cases:
  obtains (Aligned) "length e mod 8 = 0" "padding_of e = 0"
  | (Padded) "length e mod 8 \<noteq> 0" "padding_of e = int (8 - length e mod 8)" "0 < 8 - length e mod 8"
proof (cases "length e mod 8 = 0")
  case True
  then show thesis by (intro Aligned) (simp_all add: padding_of_def)
next
  case False
  have "length e mod 8 < 8" by simp
  with False show thesis by (intro Padded) (simp_all add: padding_of_def)
qed

lemma strip_padding_of:
  "strip_padding (e @ replicate (nat (padding_of e)) (CHR ''0'')) (padding_of e) = e"
proof (cases e rule: padding_of_cases)
  case Aligned
  then show ?thesis by (simp add: strip_padding_def)
next
  case Padded
  then show ?thesis by (simp add: strip_padding_def)
qed

lemma padded_length:
  "\<exists>k. length (e @ replicate (nat (padding_of e)) (CHR ''0'')) = 8 * k"
proof (cases e rule: padding_of_cases)
  case Aligned
  then have "length e = 8 * (length e div 8)" by (metis mult_div_mod_eq add.right_neutral)
  with Aligned show ?thesis by (intro exI [of _ "length e div 8"]) simp
next
  case Padded
  have "length e = 8 * (length e div 8) + length e mod 8" by simp
  moreover have "length e mod 8 < 8" by simp
  moreover have "n = 8 * d + m \<Longrightarrow> m < 8 \<Longrightarrow> n + (8 - m) = 8 * (d + 1)"
    for n d m :: nat by simp
  ultimately have "length e + (8 - length e mod 8) = 8 * (length e div 8 + 1)" by blast
  with Padded show ?thesis by (intro exI [of _ "length e div 8 + 1"]) simp
qed

section \<open>The code table of a built tree\<close>

lemma code_table_leaf:
  "generate_codes_node (HuffmanNode (Some k) f l r) [] cs = cs(k \<mapsto> ''0'')"
  by simp

lemma code_table_internal:
  "char t = None \<Longrightarrow> generate_codes_node t [] Map.empty = fold (store []) (paths t) Map.empty"
  by (simp add: generate_codes_paths)

lemma code_table_dom:
  assumes "wf_tree t"
  shows "dom (generate_codes_node t [] Map.empty) = set (leaves t)"
  using assms
proof (cases t rule: wf_tree_cases)
  case (Internal f l r)
  then have "char t = None" by simp
  from code_table_internal [OF this] show ?thesis
    by (simp add: dom_fold_store flip: leaves_paths(1))
qed auto

lemma code_table_paths:
  "char t = None \<Longrightarrow> generate_codes_node t [] Map.empty k = Some p \<Longrightarrow> (k, p) \<in> set (paths t)"
  using fold_store_Some [of "[]" "paths t" Map.empty k p]
  by (simp add: code_table_internal)

lemma code_table_binary:
  assumes "wf_tree t" "generate_codes_node t [] Map.empty k = Some p"
  shows "binary p"
  using assms(1)
proof (cases t rule: wf_tree_cases)
  case (Leaf c f)
  with assms(2) show ?thesis by (auto simp: binary_def split: if_splits)
next
  case (Internal f l r)
  then have "char t = None" by simp
  from code_table_paths [OF this assms(2)] paths_binary [OF assms(1)]
  show ?thesis unfolding binary_def by blast
qed

lemma binary_Nil [simp]: "binary []"
  by (simp add: binary_def)

lemma binary_concat: "\<forall>s \<in> set ss. binary s \<Longrightarrow> binary (concat ss)"
  by (induction ss) auto

lemma encode_loop_Inr:
  "encode_loop cs msg acc = Inr enc \<Longrightarrow>
   (\<forall>c \<in> set msg. cs (Sym c) \<noteq> None) \<and> enc = acc @ concat (map (\<lambda>c. the (cs (Sym c))) msg)"
proof (induction msg arbitrary: acc)
  case Nil
  then show ?case by simp
next
  case (Cons c msg)
  from Cons.prems obtain code where c: "cs (Sym c) = Some code"
    and r: "encode_loop cs msg (acc @ code) = Inr enc"
    by (auto split: option.splits)
  from Cons.IH [OF r] c show ?case by simp
qed

section \<open>The two pipelines\<close>

lemma generate_codes_Some:
  "huffman_tree self = Some t \<Longrightarrow>
   generate_codes self =
     Inr (if is_leaf t then None else Some (generate_codes_node t [] Map.empty),
          self\<lparr>codes := generate_codes_node t [] Map.empty\<rparr>)"
  by (simp add: generate_codes_def Let_def)

lemma compress_steps:
  assumes t: "build_huffman_tree (self\<lparr>frequency_map := Counter msg\<rparr>) = Inr (Some t, self1)"
    and wf: "wf_tree t"
    and e: "encode_loop (generate_codes_node t [] Map.empty) msg [] = Inr enc"
  shows "\<exists>bs. compress self msg =
            Inr ((bs, serialize_node t, padding_of enc),
                 self1\<lparr>codes := generate_codes_node t [] Map.empty\<rparr>) \<and>
          pack_loop (enc @ replicate (nat (padding_of enc)) (CHR ''0'')) [] = Inr bs \<and>
          bits_loop bs [] = enc @ replicate (nat (padding_of enc)) (CHR ''0'') \<and>
          8 * length bs = length enc + nat (padding_of enc)"
proof -
  let ?cs = "generate_codes_node t [] Map.empty"
  from t have h: "huffman_tree self1 = Some t"
    by (auto simp: build_huffman_tree_def Let_def split: if_splits sum.splits)
  from encode_loop_Inr [OF e] have enc: "enc = concat (map (\<lambda>c. the (?cs (Sym c))) msg)"
    and dom: "\<forall>c \<in> set msg. ?cs (Sym c) \<noteq> None" by auto
  have "binary enc" unfolding enc
  proof (rule binary_concat, clarsimp)
    fix c assume "c \<in> set msg"
    with dom obtain p where "?cs (Sym c) = Some p" by auto
    with code_table_binary [OF wf this] show "binary (the (?cs (Sym c)))" by simp
  qed
  then have b: "binary (enc @ replicate (nat (padding_of enc)) (CHR ''0''))" by simp
  from padded_length obtain k where
    k: "length (enc @ replicate (nat (padding_of enc)) (CHR ''0'')) = 8 * k" by blast
  from pack_unpack [OF b k, of "[]" "[]"] obtain bs where
    bs: "pack_loop (enc @ replicate (nat (padding_of enc)) (CHR ''0'')) [] = Inr bs"
        "bits_loop bs [] = enc @ replicate (nat (padding_of enc)) (CHR ''0'')"
        "length bs = k"
    by auto
  have len: "8 * length bs = length enc + nat (padding_of enc)"
    using k bs(3) by simp
  have "compress self msg =
          Inr ((bs, serialize_node t, padding_of enc), self1\<lparr>codes := ?cs\<rparr>)"
    using t h e bs(1)
    by (simp add: compress_def calculate_frequencies_def generate_codes_Some Let_def
        serialize_tree_def)
  with bs(1,2) len show ?thesis by blast
qed

lemma decode_encoded:
  assumes wf: "wf_tree t" and nl: "char t = None"
    and e: "encode_loop (generate_codes_node t [] Map.empty) msg [] = Inr enc"
    and k: "generate_codes_node t [] Map.empty k = Some p" and q: "strict_prefix q p"
  shows "decode_loop (Some t) (Some t) (enc @ q) [] = Inr msg"
proof -
  let ?cs = "generate_codes_node t [] Map.empty"
  from encode_loop_Inr [OF e] have enc: "enc = concat (map (\<lambda>c. the (?cs (Sym c))) msg)"
    and dom: "\<forall>c \<in> set msg. ?cs (Sym c) \<noteq> None" by auto
  have mem: "\<forall>c \<in> set msg. (Sym c, the (?cs (Sym c))) \<in> set (paths t)"
  proof
    fix c assume "c \<in> set msg"
    with dom obtain p where "?cs (Sym c) = Some p" by auto
    with code_table_paths [OF nl this] show "(Sym c, the (?cs (Sym c))) \<in> set (paths t)"
      by simp
  qed
  from code_table_paths [OF nl k] have kp: "(k, p) \<in> set (paths t)" .
  have "decode_loop (Some t) (Some t) (enc @ q) [] = decode_loop (Some t) (Some t) q ([] @ msg)"
    unfolding enc by (rule decode_loop_concat [OF wf nl mem])
  also have "\<dots> = Inr msg"
    using decode_loop_partial [OF wf kp q] by simp
  finally show ?thesis .
qed

lemma decompress_serialized:
  assumes wf: "wf_tree t" and nl: "char t = None"
    and e: "encode_loop (generate_codes_node t [] Map.empty) msg [] = Inr enc"
    and k: "generate_codes_node t [] Map.empty k = Some p" and q: "strict_prefix q p"
    and bits: "strip_padding (bits_loop bs []) pad = enc @ q"
  shows "decompress self bs (serialize_node t, pad) =
           Inr (msg, self\<lparr>huffman_tree := Some (zero_freq t)\<rparr>)"
proof -
  let ?z = "zero_freq t"
  have wfz: "wf_tree ?z" using wf by (rule wf_zero_freq)
  have cz: "char ?z = None" using nl by (cases t) simp
  have cs: "generate_codes_node ?z [] Map.empty = generate_codes_node t [] Map.empty"
    by (rule generate_codes_zero_freq)
  have d: "decode_loop (Some ?z) (Some ?z) (enc @ q) [] = Inr msg"
    using wfz cz e k q unfolding cs [symmetric] by (rule decode_encoded)
  have "deserialize_tree (serialize_node t) = Inr (Some ?z, [])"
    using deserialize_serialize [OF wf, of "[]"] by simp
  with d bits show ?thesis by (simp add: decompress_def Let_def)
qed

lemma built_tree:
  assumes "msg \<noteq> []"
  obtains t where
    "build_huffman_tree (self\<lparr>frequency_map := Counter msg\<rparr>) =
       Inr (Some t, self\<lparr>frequency_map := Counter msg, huffman_tree := Some t\<rparr>)"
    "wf_tree t" "set (leaves t) = Sym ` set msg" "distinct (leaves t)"
proof -
  let ?s = "self\<lparr>frequency_map := Counter msg\<rparr>"
  from assms have "frequency_map ?s \<noteq> []" by (simp add: Counter_empty)
  from build_huffman_tree_wf [OF this] obtain t where
    t: "build_huffman_tree ?s = Inr (Some t, ?s\<lparr>huffman_tree := Some t\<rparr>)" "wf_tree t"
       "mset (leaves t) = mset (map (Sym \<circ> fst) (Counter msg))"
    by auto
  from t(3) have "set (leaves t) = set (map (Sym \<circ> fst) (Counter msg))"
    by (rule mset_eq_setD)
  also have "\<dots> = Sym ` set (map fst (Counter msg))"
    by (simp add: image_image)
  finally have s: "set (leaves t) = Sym ` set msg"
    by (simp only: Counter_keys(2))
  have "distinct (map Sym (map fst (Counter msg)))"
    using Counter_keys(1) [of msg] by (simp add: distinct_map inj_on_def del: map_map)
  then have "distinct (map (Sym \<circ> fst) (Counter msg))" by simp
  with t(3) have "distinct (leaves t)" by (metis mset_eq_imp_distinct_iff)
  with t s show thesis by (intro that [of t]) auto
qed

lemma compress_total:
  assumes "msg \<noteq> []"
  obtains t enc bs where
    "wf_tree t" "set (leaves t) = Sym ` set msg" "distinct (leaves t)"
    "encode_loop (generate_codes_node t [] Map.empty) msg [] = Inr enc"
    "compress self msg =
       Inr ((bs, serialize_node t, padding_of enc),
            self\<lparr>frequency_map := Counter msg, huffman_tree := Some t,
                 codes := generate_codes_node t [] Map.empty\<rparr>)"
    "pack_loop (enc @ replicate (nat (padding_of enc)) (CHR ''0'')) [] = Inr bs"
    "bits_loop bs [] = enc @ replicate (nat (padding_of enc)) (CHR ''0'')"
    "8 * length bs = length enc + nat (padding_of enc)"
proof -
  from assms obtain t where
    t: "build_huffman_tree (self\<lparr>frequency_map := Counter msg\<rparr>) =
          Inr (Some t, self\<lparr>frequency_map := Counter msg, huffman_tree := Some t\<rparr>)"
       "wf_tree t" "set (leaves t) = Sym ` set msg" "distinct (leaves t)"
    by (rule built_tree)
  let ?cs = "generate_codes_node t [] Map.empty"
  have "\<forall>c \<in> set msg. ?cs (Sym c) \<noteq> None"
    using code_table_dom [OF t(2)] t(3) by (auto simp: dom_def)
  from encode_loop_concat [OF this, of "[]"] obtain enc where
    e: "encode_loop ?cs msg [] = Inr enc" by blast
  from compress_steps [OF t(1,2) e] obtain bs where
    "compress self msg =
       Inr ((bs, serialize_node t, padding_of enc),
            self\<lparr>frequency_map := Counter msg, huffman_tree := Some t, codes := ?cs\<rparr>)"
    "pack_loop (enc @ replicate (nat (padding_of enc)) (CHR ''0'')) [] = Inr bs"
    "bits_loop bs [] = enc @ replicate (nat (padding_of enc)) (CHR ''0'')"
    "8 * length bs = length enc + nat (padding_of enc)"
    by auto
  with t e show thesis by (intro that [of t enc bs])
qed

lemma two_symbols_internal:
  assumes "wf_tree t" "set (leaves t) = Sym ` set msg" "2 \<le> card (set msg)"
  shows "char t = None"
  using assms(1)
proof (cases t rule: wf_tree_cases)
  case (Leaf c f)
  with assms(2) have "Sym ` set msg = {Sym c}" by simp
  then have "card (Sym ` set msg) = 1" by simp
  moreover have "card (Sym ` set msg) = card (set msg)"
    by (rule card_image) (simp add: inj_on_def)
  ultimately show ?thesis using assms(3) by simp
qed simp

section \<open>The heap invariant\<close>

lemma under_refl [simp]: "under s s"
  by (subst under.simps) simp

lemma under_le: "under s p \<Longrightarrow> s \<le> p"
  by (induction s p rule: under.induct) (subst (asm) under.simps, auto split: if_splits)

lemma under_parent: "under s p \<Longrightarrow> s < p \<Longrightarrow> under s ((p - 1) div 2)"
  by (subst (asm) under.simps) simp

lemma under_child: "under s p \<Longrightarrow> 0 < c \<Longrightarrow> (c - 1) div 2 = p \<Longrightarrow> under s c"
proof -
  assume a: "under s p" "0 < c" "(c - 1) div 2 = p"
  then have "p < c" by auto
  with under_le [OF a(1)] have "\<not> c \<le> s" by simp
  with a show ?thesis by (subst under.simps) simp
qed

lemma siftdown_loop_heap:
  "hole_inv s h p \<Longrightarrow> below_children x h p \<Longrightarrow> heap_from s (siftdown_loop h s x p)"
proof (induction h s x p rule: siftdown_loop.induct)
  case (1 heap startpos newitem pos)
  let ?pp = "(pos - 1) div 2"
  from "1.prems"(1) have len: "pos < length heap" and un: "under startpos pos"
    and edges: "\<And>c. 0 < c \<Longrightarrow> c < length heap \<Longrightarrow> startpos \<le> (c - 1) div 2 \<Longrightarrow> c \<noteq> pos \<Longrightarrow>
                 (c - 1) div 2 \<noteq> pos \<Longrightarrow> edge_ok heap c"
    and grand: "\<And>c. startpos < pos \<Longrightarrow> 0 < c \<Longrightarrow> c < length heap \<Longrightarrow> (c - 1) div 2 = pos \<Longrightarrow>
                 freq (heap ! ?pp) \<le> freq (heap ! c)"
    by (auto simp: hole_inv_def)
  from "1.prems"(2) have below: "\<And>c. 0 < c \<Longrightarrow> c < length heap \<Longrightarrow> (c - 1) div 2 = pos \<Longrightarrow>
                 freq newitem \<le> freq (heap ! c)"
    by (auto simp: below_children_def)
  show ?case
  proof (cases "pos > startpos \<and> lt newitem (heap ! ?pp)")
    case True
    then have gt: "startpos < pos" and small: "freq newitem < freq (heap ! ?pp)"
      by (auto simp: lt_def)
    have pplt: "?pp < pos" using gt by auto
    have ppu: "under startpos ?pp" using un gt by (rule under_parent)
    have pp_ge: "startpos \<le> ?pp" using ppu by (rule under_le)
    let ?h = "heap[pos := heap ! ?pp]"
    have eq: "siftdown_loop heap startpos newitem pos = siftdown_loop ?h startpos newitem ?pp"
      using True by (subst siftdown_loop.simps) (simp add: Let_def)
    have nth: "\<And>i. i \<noteq> pos \<Longrightarrow> ?h ! i = heap ! i" by simp
    have nthp: "?h ! pos = heap ! ?pp" using len by simp
    have pp_edge: "edge_ok heap ?pp" if "startpos < ?pp"
    proof -
      have "under startpos ((?pp - 1) div 2)" using ppu that by (rule under_parent)
      then have "startpos \<le> (?pp - 1) div 2" by (rule under_le)
      moreover have "(?pp - 1) div 2 \<noteq> pos" using pplt by auto
      moreover have "0 < ?pp" using that by auto
      ultimately show ?thesis using edges [of ?pp] pplt len by auto
    qed
    have hi: "hole_inv startpos ?h ?pp"
      unfolding hole_inv_def
    proof (intro conjI allI impI)
      show "?pp < length ?h" using pplt len by simp
      show "under startpos ?pp" by (rule ppu)
    next
      fix c
      assume c: "0 < c \<and> c < length ?h \<and> startpos \<le> (c - 1) div 2 \<and> c \<noteq> ?pp \<and> (c - 1) div 2 \<noteq> ?pp"
      then have cpos: "c \<noteq> pos" by auto
      show "edge_ok ?h c"
      proof (cases "(c - 1) div 2 = pos")
        case True
        with grand [of c] gt c have "freq (heap ! ?pp) \<le> freq (heap ! c)" by simp
        with True cpos len show ?thesis by (simp add: edge_ok_def)
      next
        case False
        with edges [of c] c cpos have "edge_ok heap c" by simp
        with False cpos show ?thesis by (simp add: edge_ok_def)
      qed
    next
      fix c
      assume s: "startpos < ?pp" and c: "0 < c \<and> c < length ?h \<and> (c - 1) div 2 = ?pp"
      have ppp: "(?pp - 1) div 2 \<noteq> pos" using pplt by auto
      from pp_edge [OF s] have e1: "freq (heap ! ((?pp - 1) div 2)) \<le> freq (heap ! ?pp)"
        by (simp add: edge_ok_def)
      show "freq (?h ! ((?pp - 1) div 2)) \<le> freq (?h ! c)"
      proof (cases "c = pos")
        case True
        with e1 ppp len show ?thesis by simp
      next
        case False
        have "edge_ok heap c" using edges [of c] c False pp_ge pplt by auto
        with c have "freq (heap ! ?pp) \<le> freq (heap ! c)" by (simp add: edge_ok_def)
        with e1 False ppp show ?thesis by simp
      qed
    qed
    have bc: "below_children newitem ?h ?pp"
      unfolding below_children_def
    proof (intro allI impI)
      fix c
      assume c: "0 < c \<and> c < length ?h \<and> (c - 1) div 2 = ?pp"
      show "freq newitem \<le> freq (?h ! c)"
      proof (cases "c = pos")
        case True
        with small len show ?thesis by simp
      next
        case False
        have "edge_ok heap c" using edges [of c] c False pp_ge pplt by auto
        with c have "freq (heap ! ?pp) \<le> freq (heap ! c)" by (simp add: edge_ok_def)
        with small False show ?thesis by simp
      qed
    qed
    have "heap_from startpos (siftdown_loop ?h startpos newitem ?pp)"
      using True hi bc by (intro "1.IH") auto
    then show ?thesis by (simp only: eq)
  next
    case False
    then have eq: "siftdown_loop heap startpos newitem pos = heap[pos := newitem]"
      by (subst siftdown_loop.simps) (auto simp: Let_def)
    let ?h = "heap[pos := newitem]"
    have "heap_from startpos ?h"
      unfolding heap_from_def
    proof (intro allI impI)
      fix c
      assume c: "0 < c \<and> c < length ?h \<and> startpos \<le> (c - 1) div 2"
      show "edge_ok ?h c"
      proof (cases "c = pos")
        case True
        with c have "startpos \<le> ?pp" "0 < pos" by auto
        then have "startpos < pos" by auto
        with False have "freq (heap ! ?pp) \<le> freq newitem" by (simp add: lt_def)
        moreover have "?pp \<noteq> pos" using \<open>0 < pos\<close> by auto
        ultimately show ?thesis using True len by (simp add: edge_ok_def)
      next
        case cp: False
        show ?thesis
        proof (cases "(c - 1) div 2 = pos")
          case True
          with below [of c] c have "freq newitem \<le> freq (heap ! c)" by simp
          with True cp len show ?thesis by (simp add: edge_ok_def)
        next
          case False
          with edges [of c] c cp have "edge_ok heap c" by simp
          with False cp show ?thesis by (simp add: edge_ok_def)
        qed
      qed
    qed
    then show ?thesis by (simp only: eq)
  qed
qed

lemma child_iff:
  "0 < c \<and> (c - 1) div 2 = p \<longleftrightarrow> c = 2 * p + 1 \<or> c = 2 * p + 2" for c p :: nat
  by presburger

lemma siftup_loop_inv:
  "hole_inv s h p \<Longrightarrow> siftup_loop h p = (h1, p1) \<Longrightarrow>
   hole_inv s h1 p1 \<and> length h1 \<le> 2 * p1 + 1"
proof (induction h p arbitrary: h1 p1 rule: siftup_loop.induct)
  case (1 heap pos)
  from "1.prems"(1) have len: "pos < length heap" and un: "under s pos"
    and edges: "\<And>c. 0 < c \<Longrightarrow> c < length heap \<Longrightarrow> s \<le> (c - 1) div 2 \<Longrightarrow> c \<noteq> pos \<Longrightarrow>
                 (c - 1) div 2 \<noteq> pos \<Longrightarrow> edge_ok heap c"
    and grand: "\<And>c. s < pos \<Longrightarrow> 0 < c \<Longrightarrow> c < length heap \<Longrightarrow> (c - 1) div 2 = pos \<Longrightarrow>
                 freq (heap ! ((pos - 1) div 2)) \<le> freq (heap ! c)"
    by (auto simp: hole_inv_def)
  show ?case
  proof (cases "2 * pos + 1 < length heap")
    case True
    define c where "c = (if 2 * pos + 1 + 1 < length heap \<and>
                            \<not> lt (heap ! (2 * pos + 1)) (heap ! (2 * pos + 1 + 1))
                          then 2 * pos + 1 + 1 else 2 * pos + 1)"
    have c: "c < length heap" "pos < c" "0 < c" "(c - 1) div 2 = pos"
      using True by (auto simp: c_def)
    have smaller: "freq (heap ! c) \<le> freq (heap ! d)"
      if "0 < d" "d < length heap" "(d - 1) div 2 = pos" for d
    proof -
      from that child_iff [of d pos] have "d = 2 * pos + 1 \<or> d = 2 * pos + 2" by simp
      with that(2) show ?thesis by (auto simp: c_def lt_def)
    qed
    let ?h = "heap[pos := heap ! c]"
    have rec: "siftup_loop heap pos = siftup_loop ?h c"
      using True by (subst siftup_loop.simps) (simp add: Let_def c_def)
    with "1.prems"(2) have r: "siftup_loop ?h c = (h1, p1)" by simp
    note IH = "1.IH" [OF refl refl True refl refl, folded c_def]
    have s_le: "s \<le> pos" using un by (rule under_le)
    have hi: "hole_inv s ?h c"
      unfolding hole_inv_def
    proof (intro conjI allI impI)
      show "c < length ?h" using c by simp
      show "under s c" using un c(3,4) by (rule under_child)
    next
      fix d
      assume d: "0 < d \<and> d < length ?h \<and> s \<le> (d - 1) div 2 \<and> d \<noteq> c \<and> (d - 1) div 2 \<noteq> c"
      show "edge_ok ?h d"
      proof (cases "(d - 1) div 2 = pos")
        case True
        with d have "pos < d" by auto
        with smaller [of d] d True len show ?thesis by (simp add: edge_ok_def)
      next
        case np: False
        show ?thesis
        proof (cases "d = pos")
          case True
          with d have "s < pos" by auto
          from grand [OF this c(3) c(1) c(4)] True len np show ?thesis
            by (simp add: edge_ok_def)
        next
          case False
          with edges [of d] d np have "edge_ok heap d" by simp
          with False np show ?thesis by (simp add: edge_ok_def)
        qed
      qed
    next
      fix d
      assume "s < c" and d: "0 < d \<and> d < length ?h \<and> (d - 1) div 2 = c"
      then have dp: "d \<noteq> pos" using c(2) by auto
      have "edge_ok heap d" using edges [of d] d dp c(2) s_le by auto
      with d dp c(4) len show "freq (?h ! ((c - 1) div 2)) \<le> freq (?h ! d)"
        by (simp add: edge_ok_def)
    qed
    from IH [OF hi r] show ?thesis .
  next
    case False
    with "1.prems"(2) have "h1 = heap" "p1 = pos"
      by (subst (asm) siftup_loop.simps, simp add: Let_def)+
    with "1.prems"(1) False show ?thesis by simp
  qed
qed

lemma hole_inv_update: "hole_inv s h p \<Longrightarrow> hole_inv s (h[p := x]) p"
  unfolding hole_inv_def edge_ok_def
  by (auto simp: nth_list_update)

lemma siftup_heap:
  assumes "heap_from (Suc p) h" "p < length h"
  shows "heap_from p (siftup h p)"
proof -
  have hi: "hole_inv p h p"
    using assms unfolding hole_inv_def heap_from_def
    by (auto simp: Suc_le_eq)
  obtain h1 p1 where s: "siftup_loop h p = (h1, p1)" by (cases "siftup_loop h p")
  from siftup_loop_inv [OF hi s] have h1: "hole_inv p h1 p1" and leaf: "length h1 \<le> 2 * p1 + 1"
    by auto
  let ?h = "h1[p1 := h ! p]"
  have "hole_inv p ?h p1" using h1 by (rule hole_inv_update)
  moreover have "below_children (h ! p) ?h p1"
    using leaf unfolding below_children_def by auto
  ultimately have "heap_from p (siftdown_loop ?h p (h ! p) p1)"
    by (rule siftdown_loop_heap)
  moreover have "p1 < length h1" using h1 by (simp add: hole_inv_def)
  ultimately show ?thesis
    by (simp add: siftup_def s Let_def siftdown_def)
qed

lemma under_zero: "under 0 p"
  by (induction p rule: less_induct) (subst under.simps, auto)

lemma heap_root_min:
  "heap_from 0 h \<Longrightarrow> i < length h \<Longrightarrow> freq (h ! 0) \<le> freq (h ! i)"
proof (induction i rule: less_induct)
  case (less i)
  show ?case
  proof (cases "i = 0")
    case True
    then show ?thesis by simp
  next
    case False
    then have p: "(i - 1) div 2 < i" by auto
    with less.prems have "freq (h ! 0) \<le> freq (h ! ((i - 1) div 2))"
      by (intro less.IH) auto
    moreover have "edge_ok h i" using less.prems False by (auto simp: heap_from_def)
    ultimately show ?thesis by (simp add: edge_ok_def)
  qed
qed

lemma heappush_heap:
  assumes "heap_from 0 h"
  shows "heap_from 0 (heappush h x)"
proof -
  let ?h = "h @ [x]"
  have "hole_inv 0 ?h (length h)"
    unfolding hole_inv_def
  proof (intro conjI allI impI)
    show "length h < length ?h" by simp
    show "under 0 (length h)" by (rule under_zero)
  next
    fix c
    assume c: "0 < c \<and> c < length ?h \<and> 0 \<le> (c - 1) div 2 \<and> c \<noteq> length h \<and> (c - 1) div 2 \<noteq> length h"
    then have "c < length h" "(c - 1) div 2 < length h" by auto
    moreover with assms c have "edge_ok h c" by (auto simp: heap_from_def)
    ultimately show "edge_ok ?h c" by (simp add: edge_ok_def nth_append)
  next
    fix c
    assume "0 < c \<and> c < length ?h \<and> (c - 1) div 2 = length h"
    then have False by auto
    then show "freq (?h ! ((length h - 1) div 2)) \<le> freq (?h ! c)" ..
  qed
  moreover have "below_children x ?h (length h)"
    unfolding below_children_def by auto
  ultimately have "heap_from 0 (siftdown_loop ?h 0 x (length h))"
    by (rule siftdown_loop_heap)
  then show ?thesis by (simp add: heappush_def siftdown_def)
qed

lemma heappop_heap:
  assumes "heap_from 0 h" "heappop h = Inr (x, q)"
  shows "heap_from 0 q \<and> (\<forall>y \<in> set h. freq x \<le> freq y)"
proof (cases h rule: rev_cases)
  case Nil
  with assms(2) show ?thesis by (simp add: heappop_def)
next
  case (snoc h1 y)
  show ?thesis
  proof (cases "h1 = []")
    case True
    with snoc assms(2) show ?thesis by (auto simp: heappop_def heap_from_def)
  next
    case False
    then have 0: "0 < length h1" by simp
    with snoc assms(2) False have x: "x = h ! 0" and q: "q = siftup (h1[0 := y]) 0"
      by (auto simp: heappop_def nth_append)
    have "heap_from (Suc 0) (h1[0 := y])"
      unfolding heap_from_def
    proof (intro allI impI)
      fix c
      assume c: "0 < c \<and> c < length (h1[0 := y]) \<and> Suc 0 \<le> (c - 1) div 2"
      then have lt: "c < length h1" "(c - 1) div 2 < length h1" "(c - 1) div 2 \<noteq> 0" by auto
      with assms(1) snoc c have "edge_ok h c" by (auto simp: heap_from_def)
      with lt c snoc show "edge_ok (h1[0 := y]) c" by (simp add: edge_ok_def nth_append)
    qed
    then have "heap_from 0 q" using 0 unfolding q by (intro siftup_heap) auto
    moreover have "\<forall>y \<in> set h. freq x \<le> freq y"
      using heap_root_min [OF assms(1)] unfolding x by (auto simp: in_set_conv_nth)
    ultimately show ?thesis ..
  qed
qed

lemma foldl_siftup_heap:
  "heap_from k h \<Longrightarrow> k \<le> length h \<Longrightarrow> heap_from 0 (foldl siftup h (rev [0 ..< k]))"
proof (induction k arbitrary: h)
  case 0
  then show ?case by simp
next
  case (Suc k)
  then have "heap_from k (siftup h k)" "k \<le> length (siftup h k)"
    by (auto intro: siftup_heap)
  from Suc.IH [OF this] show ?case by simp
qed

lemma heapify_heap: "heap_from 0 (heapify x)"
proof -
  have "heap_from (length x div 2) x"
    unfolding heap_from_def by auto
  then show ?thesis unfolding heapify_def by (rule foldl_siftup_heap) simp
qed

section \<open>Trees over the queued nodes\<close>

lemma flatten_split: "flatten s = m \<Longrightarrow> flatten (split m s A) = flatten A"
  by (induction A) auto

lemma atoms_split:
  "m \<in> set (atoms A) \<Longrightarrow>
   add_mset m (mset (atoms (split m s A))) = mset (atoms A) + mset (atoms s)"
proof (induction A)
  case (Atom x)
  then show ?case by simp
next
  case (ANode w a b)
  show ?case
  proof (cases "m \<in> set (atoms a)")
    case True
    from ANode.IH(1) [OF True] True show ?thesis by simp
  next
    case False
    with ANode.prems have b: "m \<in> set (atoms b)" by simp
    from ANode.IH(2) [OF b] False show ?thesis by simp
  qed
qed

lemma weight_split: "weight s = freq m \<Longrightarrow> weight (split m s A) = weight A"
  by (induction A) auto

lemma consistent_split:
  "consistent A \<Longrightarrow> consistent s \<Longrightarrow> weight s = freq m \<Longrightarrow> consistent (split m s A)"
  by (induction A) (auto simp: weight_split)

lemma nodes_split:
  "m \<in> set (atoms A) \<Longrightarrow>
   \<exists>dm. (dm, freq m) \<in> set (nodes d A) \<and>
        set (nodes d (split m (ANode (freq m) (Atom l) (Atom r)) A)) =
          set (nodes d A) \<union> {(Suc dm, freq l), (Suc dm, freq r)}"
proof (induction A arbitrary: d)
  case (Atom x)
  then show ?case by auto
next
  case (ANode w a b)
  show ?case
  proof (cases "m \<in> set (atoms a)")
    case True
    from ANode.IH(1) [OF True, of "Suc d"] obtain dm where
      "(dm, freq m) \<in> set (nodes (Suc d) a)"
      "set (nodes (Suc d) (split m (ANode (freq m) (Atom l) (Atom r)) a)) =
         set (nodes (Suc d) a) \<union> {(Suc dm, freq l), (Suc dm, freq r)}"
      by blast
    with True show ?thesis by (intro exI [of _ dm]) auto
  next
    case False
    with ANode.prems have b: "m \<in> set (atoms b)" by simp
    from ANode.IH(2) [OF b, of "Suc d"] obtain dm where
      "(dm, freq m) \<in> set (nodes (Suc d) b)"
      "set (nodes (Suc d) (split m (ANode (freq m) (Atom l) (Atom r)) b)) =
         set (nodes (Suc d) b) \<union> {(Suc dm, freq l), (Suc dm, freq r)}"
      by blast
    with False show ?thesis by (intro exI [of _ dm]) auto
  qed
qed

lemma nodes_depth: "(dd, w) \<in> set (nodes d A) \<Longrightarrow> d \<le> dd"
  by (induction A arbitrary: d) (auto dest: Suc_leD)

lemma nodes_root: "(d, w) \<in> set (nodes d A) \<Longrightarrow> w = weight A"
  by (cases A) (auto dest: nodes_depth)

lemma weight_lower_bound:
  "consistent A \<Longrightarrow> \<forall>x \<in> set (atoms A). m \<le> freq x \<Longrightarrow> m \<le> weight A"
  by (induction A) auto

lemma nodes_lower_bound:
  "consistent A \<Longrightarrow> \<forall>x \<in> set (atoms A). m \<le> freq x \<Longrightarrow> (dd, w) \<in> set (nodes d A) \<Longrightarrow> m \<le> w"
proof (induction A arbitrary: d)
  case (Atom x)
  then show ?case by simp
next
  case (ANode w0 a b)
  from ANode.prems(1,2) have "m \<le> weight (ANode w0 a b)" by (rule weight_lower_bound)
  with ANode show ?case by auto
qed

lemma nodes_parent:
  "consistent A \<Longrightarrow> \<forall>x \<in> set (atoms A). m \<le> freq x \<Longrightarrow>
   (Suc dd, w) \<in> set (nodes d A) \<Longrightarrow> d \<le> dd \<Longrightarrow>
   \<exists>wp. (dd, wp) \<in> set (nodes d A) \<and> w + m \<le> wp"
proof (induction A arbitrary: d)
  case (Atom x)
  then show ?case by simp
next
  case (ANode w0 a b)
  from ANode.prems(1) have w0: "w0 = weight a + weight b" and ca: "consistent a" and cb: "consistent b"
    by auto
  from ANode.prems(2) have ma: "\<forall>x \<in> set (atoms a). m \<le> freq x" and mb: "\<forall>x \<in> set (atoms b). m \<le> freq x"
    by auto
  have wa: "m \<le> weight a" using ca ma by (rule weight_lower_bound)
  have wb: "m \<le> weight b" using cb mb by (rule weight_lower_bound)
  from ANode.prems(3,4) consider
    (A) "(Suc dd, w) \<in> set (nodes (Suc d) a)" | (B) "(Suc dd, w) \<in> set (nodes (Suc d) b)"
    by auto
  then show ?case
  proof cases
    case A
    show ?thesis
    proof (cases "dd = d")
      case True
      with A have "w = weight a" by (auto dest: nodes_root)
      with True w0 wb show ?thesis by (intro exI [of _ w0]) simp
    next
      case False
      with ANode.prems(4) have "Suc d \<le> dd" by simp
      from ANode.IH(1) [OF ca ma A this] show ?thesis by auto
    qed
  next
    case B
    show ?thesis
    proof (cases "dd = d")
      case True
      with B have "w = weight b" by (auto dest: nodes_root)
      with True w0 wa show ?thesis by (intro exI [of _ w0]) simp
    next
      case False
      with ANode.prems(4) have "Suc d \<le> dd" by simp
      from ANode.IH(2) [OF cb mb B this] show ?thesis by auto
    qed
  qed
qed

lemma depth_mono_split:
  assumes mono: "depth_mono A" and cons: "consistent A" and mem: "m \<in> set (atoms A)"
    and lb: "\<forall>x \<in> set (atoms A). freq r \<le> freq x"
    and le: "freq l \<le> freq r" and fm: "freq m = freq l + freq r"
  shows "depth_mono (split m (ANode (freq m) (Atom l) (Atom r)) A)"
proof -
  let ?A = "split m (ANode (freq m) (Atom l) (Atom r)) A"
  from nodes_split [OF mem, of 0 l r] obtain dm where
    dm: "(dm, freq m) \<in> set (nodes 0 A)" and
    new: "set (nodes 0 ?A) = set (nodes 0 A) \<union> {(Suc dm, freq l), (Suc dm, freq r)}"
    by blast
  have old_old: "du \<le> dv"
    if "(du, wu) \<in> set (nodes 0 A)" "(dv, wv) \<in> set (nodes 0 A)" "wv < wu" for du wu dv wv
    using mono that unfolding depth_mono_def by blast
  have old_new: "du \<le> Suc dm"
    if u: "(du, wu) \<in> set (nodes 0 A)" and w: "wv < wu" and v: "wv = freq l \<or> wv = freq r"
    for du wu wv
  proof (rule ccontr)
    assume "\<not> du \<le> Suc dm"
    then obtain dd where dd: "du = Suc dd" "Suc dm \<le> dd" by (cases du) auto
    from nodes_parent [OF cons lb u [unfolded dd(1)]] obtain wp where
      wp: "(dd, wp) \<in> set (nodes 0 A)" "wu + freq r \<le> wp" by auto
    from w v le have "freq l + freq r < wu + freq r" by auto
    with wp(2) fm have "freq m < wp" by simp
    from old_old [OF wp(1) dm this] dd(2) show False by simp
  qed
  have new_old: False
    if v: "(dv, wv) \<in> set (nodes 0 A)" and w: "wv < wu" and u: "wu = freq l \<or> wu = freq r"
    for dv wv wu
  proof -
    from nodes_lower_bound [OF cons lb v] have "freq r \<le> wv" .
    with w u le show False by auto
  qed
  show ?thesis
    unfolding depth_mono_def new
  proof (intro allI impI, elim conjE)
    fix du wu dv wv
    assume u: "(du, wu) \<in> set (nodes 0 A) \<union> {(Suc dm, freq l), (Suc dm, freq r)}"
      and v: "(dv, wv) \<in> set (nodes 0 A) \<union> {(Suc dm, freq l), (Suc dm, freq r)}"
      and w: "wv < wu"
    show "du \<le> dv"
    proof (cases "(du, wu) \<in> set (nodes 0 A)")
      case uo: True
      show ?thesis
      proof (cases "(dv, wv) \<in> set (nodes 0 A)")
        case True
        from old_old [OF uo True w] show ?thesis .
      next
        case False
        with v have "dv = Suc dm" "wv = freq l \<or> wv = freq r" by auto
        with old_new [OF uo w] show ?thesis by simp
      qed
    next
      case un: False
      with u have u': "du = Suc dm" "wu = freq l \<or> wu = freq r" by auto
      show ?thesis
      proof (cases "(dv, wv) \<in> set (nodes 0 A)")
        case True
        from new_old [OF True w u'(2)] show ?thesis ..
      next
        case False
        with v have "dv = Suc dm" by auto
        with u' show ?thesis by simp
      qed
    qed
  qed
qed

section \<open>The building loop keeps heavier nodes higher\<close>

lemma build_loop_atree:
  "heap_from 0 pq \<Longrightarrow> pq \<noteq> [] \<Longrightarrow>
   \<exists>A. build_loop pq = Inr [flatten A] \<and> mset (atoms A) = mset pq \<and>
       consistent A \<and> depth_mono A"
proof (induction pq rule: build_loop.induct)
  case (1 pq)
  show ?case
  proof (cases "length pq > 1")
    case False
    with "1.prems"(2) obtain t where t: "pq = [t]" by (cases pq) auto
    have "build_loop pq = Inr [flatten (Atom t)]"
      unfolding t by (subst build_loop.simps) simp
    moreover have "depth_mono (Atom t)" by (simp add: depth_mono_def)
    ultimately show ?thesis using t by (intro exI [of _ "Atom t"]) simp
  next
    case True
    from "1.prems"(2) obtain l pq1 where p1: "heappop pq = Inr (l, pq1)"
      using heappop_nonempty by blast
    note m1 = mset_heappop [OF p1]
    from heappop_heap [OF "1.prems"(1) p1] have h1: "heap_from 0 pq1"
      and min1: "\<forall>y \<in> set pq. freq l \<le> freq y" by auto
    from True m1 have "pq1 \<noteq> []" by (cases pq1) (auto dest: arg_cong [where f = size])
    then obtain r pq2 where p2: "heappop pq1 = Inr (r, pq2)"
      using heappop_nonempty by blast
    note m2 = mset_heappop [OF p2]
    from heappop_heap [OF h1 p2] have h2: "heap_from 0 pq2"
      and min2: "\<forall>y \<in> set pq1. freq r \<le> freq y" by auto
    define m where "m = HuffmanNode None (freq l + freq r) (Some l) (Some r)"
    let ?pq = "heappush pq2 m"
    have m3: "mset ?pq = add_mset m (mset pq2)" by (rule mset_heappush)
    have h3: "heap_from 0 ?pq" using h2 by (rule heappush_heap)
    have ne: "?pq \<noteq> []" using m3 by auto
    from "1.IH" [OF True p1 refl p2 refl, folded m_def, OF h3 ne] obtain A where
      A: "build_loop ?pq = Inr [flatten A]" "mset (atoms A) = mset ?pq"
         "consistent A" "depth_mono A"
      by blast
    have s1: "set pq1 = insert r (set pq2)"
      using m2 by (metis set_mset_add_mset_insert set_mset_mset)
    have s0: "set pq = insert l (set pq1)"
      using m1 by (metis set_mset_add_mset_insert set_mset_mset)
    have sA: "set (atoms A) = insert m (set pq2)"
      using A(2) m3 by (metis set_mset_add_mset_insert set_mset_mset)
    let ?S = "ANode (freq m) (Atom l) (Atom r)"
    let ?A = "split m ?S A"
    have fm: "freq m = freq l + freq r" by (simp add: m_def)
    have mem: "m \<in> set (atoms A)" using sA by simp
    have le: "freq l \<le> freq r" using min1 s0 s1 by simp
    have lb: "\<forall>x \<in> set (atoms A). freq r \<le> freq x"
      using min2 s1 sA fm by auto
    have "flatten ?S = m" by (simp add: m_def)
    then have f: "flatten ?A = flatten A" by (rule flatten_split)
    have "add_mset m (mset (atoms ?A)) = mset (atoms A) + mset (atoms ?S)"
      using mem by (rule atoms_split)
    then have a: "mset (atoms ?A) = mset pq"
      by (simp add: A(2) m3 m1 m2)
    have c: "consistent ?A"
      using A(3) by (rule consistent_split) (simp_all add: fm)
    have d: "depth_mono ?A"
      using A(4,3) mem lb le fm by (rule depth_mono_split)
    have "build_loop pq = build_loop ?pq"
      using True p1 p2 by (subst build_loop.simps) (simp add: m_def)
    with A(1) f a c d show ?thesis by (intro exI [of _ ?A]) simp
  qed
qed

lemma atoms_at_nodes:
  "(dd, x) \<in> set (atoms_at d A) \<Longrightarrow> (dd, freq x) \<in> set (nodes d A) \<and> x \<in> set (atoms A)"
  by (induction A arbitrary: d) auto

lemma paths_flatten:
  "\<forall>x \<in> set (atoms A). \<exists>c f. x = HuffmanNode (Some (Sym c)) f None None \<Longrightarrow>
   (k, p) \<in> set (paths (flatten A)) \<Longrightarrow>
   \<exists>x. (d + length p, x) \<in> set (atoms_at d A) \<and> char x = Some k"
proof (induction A arbitrary: d p)
  case (Atom x)
  then show ?case by auto
next
  case (ANode w a b)
  from ANode.prems(2) have "(k, p) \<in> set (paths (HuffmanNode None w (Some (flatten a)) (Some (flatten b))))"
    by simp
  then show ?case
  proof (cases rule: paths_internal_cases)
    case (Left q)
    from ANode.prems(1) have "\<forall>x \<in> set (atoms a). \<exists>c f. x = HuffmanNode (Some (Sym c)) f None None"
      by simp
    from ANode.IH(1) [OF this Left(2), of "Suc d"] Left(1) show ?thesis by auto
  next
    case (Right q)
    from ANode.prems(1) have "\<forall>x \<in> set (atoms b). \<exists>c f. x = HuffmanNode (Some (Sym c)) f None None"
      by simp
    from ANode.IH(2) [OF this Right(2), of "Suc d"] Right(1) show ?thesis by auto
  qed
qed

lemma built_code_lengths:
  assumes d: "distinct (map fst (frequency_map self))"
    and a: "(a, fa) \<in> set (frequency_map self)"
    and b: "(b, fb) \<in> set (frequency_map self)"
    and lt: "fb < fa"
  obtains t pa pb where
    "build_huffman_tree self = Inr (Some t, self\<lparr>huffman_tree := Some t\<rparr>)"
    "generate_codes_node t [] Map.empty (Sym a) = Some pa"
    "generate_codes_node t [] Map.empty (Sym b) = Some pb"
    "length pa \<le> length pb"
proof -
  let ?fm = "frequency_map self"
  let ?leaf = "\<lambda>(c, f). HuffmanNode (Some (Sym c)) f None None"
  let ?pq = "heapify (map ?leaf ?fm)"
  from a have ne: "?fm \<noteq> []" by auto
  have m: "mset ?pq = mset (map ?leaf ?fm)" by (rule mset_heapify)
  then have pne: "?pq \<noteq> []" using ne by auto
  from build_loop_atree [OF heapify_heap pne] obtain A where
    A: "build_loop ?pq = Inr [flatten A]" "mset (atoms A) = mset ?pq"
       "consistent A" "depth_mono A"
    by blast
  let ?t = "flatten A"
  have bt: "build_huffman_tree self = Inr (Some ?t, self\<lparr>huffman_tree := Some ?t\<rparr>)"
    using ne A(1) by (simp add: build_huffman_tree_def Let_def)
  from build_huffman_tree_wf [OF ne] bt have wf: "wf_tree ?t"
    and lv: "mset (leaves ?t) = mset (map (Sym \<circ> fst) ?fm)" by auto
  have sA: "set (atoms A) = ?leaf ` set ?fm"
    using A(2) m by (metis mset_eq_setD set_map)
  have leafs: "\<forall>x \<in> set (atoms A). \<exists>c f. x = HuffmanNode (Some (Sym c)) f None None"
    unfolding sA by auto
  let ?cs = "generate_codes_node ?t [] Map.empty"
  have dom: "dom ?cs = Sym ` fst ` set ?fm"
    using code_table_dom [OF wf] mset_eq_setD [OF lv] by (simp add: image_image)
  from a dom obtain pa where pa: "?cs (Sym a) = Some pa" by force
  from b dom obtain pb where pb: "?cs (Sym b) = Some pb" by force
  have ab: "a \<noteq> b"
  proof
    assume "a = b"
    with d a b have "fa = fb" by (auto dest: eq_key_imp_eq_value)
    with lt show False by simp
  qed
  have nl: "char ?t = None"
  proof (cases A)
    case (Atom x)
    with sA have e: "?leaf ` set ?fm = {x}" by simp
    from a have "?leaf (a, fa) \<in> ?leaf ` set ?fm" by (rule imageI)
    moreover from b have "?leaf (b, fb) \<in> ?leaf ` set ?fm" by (rule imageI)
    ultimately have "?leaf (a, fa) = ?leaf (b, fb)" unfolding e by simp
    with ab show ?thesis by simp
  next
    case (ANode w l r)
    then show ?thesis by simp
  qed
  have depth: "(length p, f) \<in> set (nodes 0 A)"
    if p: "?cs (Sym c) = Some p" and c: "(c, f) \<in> set ?fm" for c p f
  proof -
    from code_table_paths [OF nl p] have "(Sym c, p) \<in> set (paths ?t)" .
    from paths_flatten [OF leafs this, of 0] obtain x where
      x: "(length p, x) \<in> set (atoms_at 0 A)" "char x = Some (Sym c)" by auto
    from atoms_at_nodes [OF x(1)] have n: "(length p, freq x) \<in> set (nodes 0 A)"
      and "x \<in> set (atoms A)" by auto
    with sA obtain c1 f1 where x1: "x = HuffmanNode (Some (Sym c1)) f1 None None"
      "(c1, f1) \<in> set ?fm" by auto
    with x(2) have "c1 = c" by simp
    with d c x1(2) have "f1 = f" by (auto dest: eq_key_imp_eq_value)
    with n x1(1) show ?thesis by simp
  qed
  from A(4) depth [OF pa a] depth [OF pb b] lt have "length pa \<le> length pb"
    unfolding depth_mono_def by blast
  with bt pa pb show thesis by (rule that)
qed

section \<open>Empty input\<close>

lemma compress_empty: "compress self [] = Inl ValueError"
  by (simp add: compress_def calculate_frequencies_def Counter_def build_huffman_tree_def)

lemma decompress_empty: "decompress self [] ([], 0) = Inr ([], self\<lparr>huffman_tree := None\<rparr>)"
  by (simp add: decompress_def deserialize_tree.simps strip_padding_def)

text \<open>
  C1, as stated, at the empty text: \<open>compress\<close> raises \<open>ValueError\<close> (the guard of
  \<open>build_huffman_tree\<close> on an empty frequency table), so the round trip does not return
  the empty text.
\<close>

theorem roundtrip_empty_fails: "roundtrip (init :: char HuffmanCompressor) [] = Inl ValueError"
  by (simp add: roundtrip_def compress_empty)

text \<open>
  C1, amended: for every text with at least two distinct symbols, whatever the state of
  the compressor, compressing it and decompressing the output returns the text.
\<close>

theorem roundtrip_two_symbols:
  assumes "2 \<le> card (set msg)"
  shows "roundtrip self msg = Inr msg"
proof -
  from assms have ne: "msg \<noteq> []" by auto
  then obtain t enc bs where
    t: "wf_tree t" "set (leaves t) = Sym ` set msg" and
    e: "encode_loop (generate_codes_node t [] Map.empty) msg [] = Inr enc" and
    c: "compress self msg =
       Inr ((bs, serialize_node t, padding_of enc),
            self\<lparr>frequency_map := Counter msg, huffman_tree := Some t,
                 codes := generate_codes_node t [] Map.empty\<rparr>)" and
    b: "bits_loop bs [] = enc @ replicate (nat (padding_of enc)) (CHR ''0'')"
    by (rule compress_total)
  from two_symbols_internal [OF t assms] have nl: "char t = None" .
  from ne obtain c0 where "c0 \<in> set msg" by (cases msg) auto
  with t(2) have "Sym c0 \<in> dom (generate_codes_node t [] Map.empty)"
    by (simp add: code_table_dom [OF t(1)])
  then obtain p where p: "generate_codes_node t [] Map.empty (Sym c0) = Some p" by auto
  from code_table_paths [OF nl p] paths_internal_nonempty [OF t(1) nl]
  have "p \<noteq> []" by blast
  then have q: "strict_prefix [] p" by (simp add: strict_prefix_def)
  have "strip_padding (bits_loop bs []) (padding_of enc) = enc @ []"
    by (simp add: b strip_padding_of)
  from decompress_serialized [OF t(1) nl e p q this] c
  show ?thesis by (simp add: roundtrip_def)
qed

theorem roundtrip_two_symbols_witness:
  "2 \<le> card (set ''abracadabra'') \<and> roundtrip init ''abracadabra'' = Inr ''abracadabra''"
proof -
  have h: "2 \<le> card (set ''abracadabra'')" by (simp add: card_insert_if)
  from roundtrip_two_symbols [OF h] h show ?thesis by blast
qed

text \<open>
  C2, as stated, at the empty text: \<open>compress\<close> does not return an empty payload with
  padding 0, it raises \<open>ValueError\<close>.
\<close>

theorem compress_empty_no_short_circuit:
  "map_sum id fst (compress (init :: char HuffmanCompressor) []) \<noteq> Inr ([], [], 0)"
  by (simp add: compress_empty)

text \<open>
  C2, amended: on the empty text \<open>compress\<close> fails with \<open>ValueError\<close>, whatever the state
  of the compressor, and returns nothing; \<open>decompress\<close> applied to an empty payload with
  padding 0 and an empty serialized tree returns the empty text.
\<close>

theorem empty_input:
  "compress self [] = Inl ValueError \<and>
   map_sum id fst (decompress self [] ([], 0)) = Inr []"
  by (simp add: compress_empty decompress_empty)

section \<open>A text over one symbol\<close>

text \<open>
  C3 at \<open>"aaaa"\<close>: the code table is \<open>{'a': "0"}\<close> and the payload is the one byte 0 with
  padding 4, but \<open>decompress\<close> on that payload and the one-leaf tree raises
  \<open>AttributeError\<close>: the first bit moves \<open>current_node\<close> to the missing left child of the
  leaf.
\<close>

theorem single_symbol_aaaa:
  "\<exists>self1.
     compress init ''aaaa'' = Inr (([0], [Flag True, Sym (CHR ''a'')], 4), self1) \<and>
     codes self1 = [Sym (CHR ''a'') \<mapsto> ''0''] \<and>
     decompress self1 [0] ([Flag True, Sym (CHR ''a'')], 4) = Inl AttributeError"
proof -
  have "map_sum id (\<lambda>(out, self1). (out, huffman_tree self1)) (compress init ''aaaa'')
          = Inr (([0], [Flag True, Sym (CHR ''a'')], 4),
                 Some (HuffmanNode (Some (Sym (CHR ''a''))) 4 None None))"
    by code_simp
  then obtain self1 where
    c: "compress init ''aaaa'' = Inr (([0], [Flag True, Sym (CHR ''a'')], 4), self1)" and
    t: "huffman_tree self1 = Some (HuffmanNode (Some (Sym (CHR ''a''))) 4 None None)"
    by (cases "compress init ''aaaa''") auto
  from compress_codes [OF c] t have "codes self1 = [Sym (CHR ''a'') \<mapsto> ''0'']"
    by auto
  moreover have "decompress self1 [0] ([Flag True, Sym (CHR ''a'')], 4) = Inl AttributeError"
    by (simp add: decompress_def deserialize_tree.simps strip_padding_def bin_def zfill_def
        eval_nat_numeral)
  ultimately show ?thesis using c by blast
qed

text \<open>
  C10 at a compressor whose tree is the single leaf for \<open>'a'\<close> and whose code table still
  holds an entry for \<open>'b'\<close>: the call \<open>generate_codes()\<close> empties the table and stores the
  code of \<open>'a'\<close>, but it returns \<open>None\<close>, not the table.
\<close>

theorem generate_codes_single_leaf_returns_None:
  "map_sum id (\<lambda>(r, s). (r, codes s (Sym (CHR ''a'')), codes s (Sym (CHR ''b''))))
     (generate_codes
        \<lparr>frequency_map = [(CHR ''a'', 4)],
         huffman_tree = Some (HuffmanNode (Some (Sym (CHR ''a''))) 4 None None),
         codes = [Sym (CHR ''b'') \<mapsto> ''1'']\<rparr>)
   = Inr (None, Some ''0'', None)"
  by (simp add: generate_codes_def is_leaf_def)

section \<open>Truncated serialized trees\<close>

text \<open>
  C4, as stated, at the list that holds one internal-node marker and nothing else:
  \<open>deserialize_tree\<close> raises nothing and returns a node without children.
\<close>

theorem deserialize_marker_only:
  "deserialize_tree ([Flag False] :: char token list) =
     Inr (Some (HuffmanNode None 0 None None), [])"
  by (simp add: deserialize_tree.simps)

text \<open>
  C4, amended: \<open>deserialize_tree\<close> does not validate its input. An internal-node marker
  followed by nothing, or by the serialization of one well-formed subtree only, gives a
  node whose missing children are \<open>None\<close>, with nothing left over and no error.
\<close>

theorem deserialize_truncated:
  "deserialize_tree ([Flag False] :: 'a token list) =
     Inr (Some (HuffmanNode None 0 None None), []) \<and>
   (wf_tree t \<longrightarrow>
      deserialize_tree (Flag False # serialize_node t) =
        Inr (Some (HuffmanNode None 0 (Some (zero_freq t)) None), []))"
  for t :: "'a HuffmanNode"
  using deserialize_serialize [of t "[]"]
  by (simp add: deserialize_tree.simps)

theorem deserialize_truncated_witness:
  "wf_tree (HuffmanNode (Some (Sym (CHR ''a''))) 4 None None) \<and>
   deserialize_tree [Flag False, Flag True, Sym (CHR ''a'')] =
     Inr (Some (HuffmanNode None 0 (Some (HuffmanNode (Some (Sym (CHR ''a''))) 0 None None)) None), [])"
  using deserialize_truncated [of "HuffmanNode (Some (Sym (CHR ''a''))) 4 None None"]
  by simp

text \<open>
  C5, as stated, at the tree with leaves \<open>a\<close>, \<open>b\<close>, \<open>c\<close> (codes \<open>0\<close>, \<open>10\<close>, \<open>11\<close>) and the
  payload byte 128 with padding 7, that is the single bit \<open>1\<close>: the walk ends at the inner
  node and \<open>decompress\<close> returns the empty text without an error.
\<close>

theorem decompress_mid_tree_no_error:
  "map_sum id fst
     (decompress init [128]
        ([Flag False, Flag True, Sym (CHR ''a''),
          Flag False, Flag True, Sym (CHR ''b''), Flag True, Sym (CHR ''c'')], 7))
   = Inr []"
  by code_simp

text \<open>
  C5, amended: when the bits are the codes of a text followed by a proper prefix \<open>q\<close> of
  some code (so that, for a non-empty \<open>q\<close>, the walk ends inside the tree), the decoding
  loop returns the text and ignores the unfinished walk.
\<close>

theorem decode_ignores_unfinished_walk:
  assumes "wf_tree root" and "\<not> is_leaf root"
    and "encode_loop (generate_codes_node root [] Map.empty) msg [] = Inr enc"
    and "generate_codes_node root [] Map.empty k = Some p"
    and "strict_prefix q p"
  shows "decode_loop (Some root) (Some root) (enc @ q) [] = Inr msg"
  using assms by (intro decode_encoded [where k = k and p = p]) (simp_all add: is_leaf_def)


theorem decode_ignores_unfinished_walk_witness:
  "wf_tree (HuffmanNode None 3 (Some (HuffmanNode (Some (Sym (CHR ''a''))) 1 None None))
             (Some (HuffmanNode None 2 (Some (HuffmanNode (Some (Sym (CHR ''b''))) 1 None None))
                                       (Some (HuffmanNode (Some (Sym (CHR ''c''))) 1 None None))))) \<and>
   \<not> is_leaf (HuffmanNode None 3 (Some (HuffmanNode (Some (Sym (CHR ''a''))) 1 None None))
             (Some (HuffmanNode None 2 (Some (HuffmanNode (Some (Sym (CHR ''b''))) 1 None None))
                                       (Some (HuffmanNode (Some (Sym (CHR ''c''))) 1 None None))))) \<and>
   encode_loop (generate_codes_node
      (HuffmanNode None 3 (Some (HuffmanNode (Some (Sym (CHR ''a''))) 1 None None))
             (Some (HuffmanNode None 2 (Some (HuffmanNode (Some (Sym (CHR ''b''))) 1 None None))
                                       (Some (HuffmanNode (Some (Sym (CHR ''c''))) 1 None None)))))
      [] Map.empty) ''ab'' [] = Inr ''010'' \<and>
   generate_codes_node
      (HuffmanNode None 3 (Some (HuffmanNode (Some (Sym (CHR ''a''))) 1 None None))
             (Some (HuffmanNode None 2 (Some (HuffmanNode (Some (Sym (CHR ''b''))) 1 None None))
                                       (Some (HuffmanNode (Some (Sym (CHR ''c''))) 1 None None)))))
      [] Map.empty (Sym (CHR ''c'')) = Some ''11'' \<and>
   strict_prefix ''1'' ''11'' \<and>
   decode_loop
     (Some (HuffmanNode None 3 (Some (HuffmanNode (Some (Sym (CHR ''a''))) 1 None None))
             (Some (HuffmanNode None 2 (Some (HuffmanNode (Some (Sym (CHR ''b''))) 1 None None))
                                       (Some (HuffmanNode (Some (Sym (CHR ''c''))) 1 None None))))))
     (Some (HuffmanNode None 3 (Some (HuffmanNode (Some (Sym (CHR ''a''))) 1 None None))
             (Some (HuffmanNode None 2 (Some (HuffmanNode (Some (Sym (CHR ''b''))) 1 None None))
                                       (Some (HuffmanNode (Some (Sym (CHR ''c''))) 1 None None))))))
     (''010'' @ ''1'') [] = Inr ''ab''"
proof -
  let ?t = "HuffmanNode None 3 (Some (HuffmanNode (Some (Sym (CHR ''a''))) 1 None None))
             (Some (HuffmanNode None 2 (Some (HuffmanNode (Some (Sym (CHR ''b''))) 1 None None))
                                       (Some (HuffmanNode (Some (Sym (CHR ''c''))) 1 None None))))"
  have 1: "wf_tree ?t" by simp
  have 2: "\<not> is_leaf ?t" by (simp add: is_leaf_def)
  have 3: "encode_loop (generate_codes_node ?t [] Map.empty) ''ab'' [] = Inr ''010''" by simp
  have 4: "generate_codes_node ?t [] Map.empty (Sym (CHR ''c'')) = Some ''11''" by simp
  have 5: "strict_prefix ''1'' ''11''" by (simp add: strict_prefix_def)
  from decode_ignores_unfinished_walk [OF 1 2 3 4 5] 1 2 3 4 5 show ?thesis by blast
qed

text \<open>
  C6: for the tree built from any non-empty frequency table, \<open>deserialize_tree\<close> applied to
  its serialization consumes the whole list and returns a tree for which \<open>generate_codes\<close>
  returns the same value and leaves the same code table as for the built tree.
\<close>

theorem serialization_fidelity:
  assumes "frequency_map self \<noteq> []"
  shows "\<exists>t t1 self1 r s1 s2.
           build_huffman_tree self = Inr (Some t, self1) \<and>
           serialize_tree self1 = Inr (serialize_node t) \<and>
           deserialize_tree (serialize_node t) = Inr (Some t1, []) \<and>
           generate_codes self1 = Inr (r, s1) \<and>
           generate_codes (self1\<lparr>huffman_tree := Some t1\<rparr>) = Inr (r, s2) \<and>
           codes s2 = codes s1"
proof -
  from build_huffman_tree_wf [OF assms] obtain t where
    t: "build_huffman_tree self = Inr (Some t, self\<lparr>huffman_tree := Some t\<rparr>)" "wf_tree t"
    by blast
  let ?s = "self\<lparr>huffman_tree := Some t\<rparr>"
  have d: "deserialize_tree (serialize_node t) = Inr (Some (zero_freq t), [])"
    using deserialize_serialize [OF t(2), of "[]"] by simp
  have l: "is_leaf (zero_freq t) = is_leaf t" by (cases t) (simp add: is_leaf_def)
  have g1: "generate_codes ?s =
      Inr (if is_leaf t then None else Some (generate_codes_node t [] Map.empty),
           ?s\<lparr>codes := generate_codes_node t [] Map.empty\<rparr>)"
    by (rule generate_codes_Some) simp
  have g2: "generate_codes (?s\<lparr>huffman_tree := Some (zero_freq t)\<rparr>) =
      Inr (if is_leaf t then None else Some (generate_codes_node t [] Map.empty),
           ?s\<lparr>huffman_tree := Some (zero_freq t),
               codes := generate_codes_node t [] Map.empty\<rparr>)"
    using generate_codes_Some [of "?s\<lparr>huffman_tree := Some (zero_freq t)\<rparr>" "zero_freq t"]
    by (simp add: l generate_codes_zero_freq)
  have s: "serialize_tree ?s = Inr (serialize_node t)" by (simp add: serialize_tree_def)
  from t(1) s d g1 g2 show ?thesis by (intro exI conjI) (assumption | simp)+
qed


theorem serialization_fidelity_witness:
  "frequency_map (init\<lparr>frequency_map := Counter ''abracadabra''\<rparr>) \<noteq> [] \<and>
   (\<exists>t t1 self1 r s1 s2.
      build_huffman_tree (init\<lparr>frequency_map := Counter ''abracadabra''\<rparr>) = Inr (Some t, self1) \<and>
      serialize_tree self1 = Inr (serialize_node t) \<and>
      deserialize_tree (serialize_node t) = Inr (Some t1, []) \<and>
      generate_codes self1 = Inr (r, s1) \<and>
      generate_codes (self1\<lparr>huffman_tree := Some t1\<rparr>) = Inr (r, s2) \<and>
      codes s2 = codes s1)"
proof -
  have h: "frequency_map (init\<lparr>frequency_map := Counter ''abracadabra''\<rparr>) \<noteq> []"
    by (simp add: Counter_def)
  from serialization_fidelity [OF h] h show ?thesis by blast
qed

text \<open>
  C7: for the tree built from any non-empty frequency table, the code table that
  \<open>generate_codes\<close> leaves is prefix-free: the code of one symbol is never a prefix of the
  code of another symbol.
\<close>

theorem prefix_freedom:
  assumes "frequency_map self \<noteq> []"
  shows "\<exists>t self1 r self2.
           build_huffman_tree self = Inr (Some t, self1) \<and>
           generate_codes self1 = Inr (r, self2) \<and>
           (\<forall>a b pa pb. a \<noteq> b \<longrightarrow> codes self2 a = Some pa \<longrightarrow> codes self2 b = Some pb \<longrightarrow>
              \<not> prefix pa pb)"
proof -
  from build_huffman_tree_wf [OF assms] obtain t where
    t: "build_huffman_tree self = Inr (Some t, self\<lparr>huffman_tree := Some t\<rparr>)" "wf_tree t"
    by blast
  let ?s = "self\<lparr>huffman_tree := Some t\<rparr>"
  let ?cs = "generate_codes_node t [] Map.empty"
  have g: "generate_codes ?s =
      Inr (if is_leaf t then None else Some ?cs, ?s\<lparr>codes := ?cs\<rparr>)"
    by (rule generate_codes_Some) simp
  have "\<not> prefix pa pb" if ab: "a \<noteq> b" and a: "?cs a = Some pa" and b: "?cs b = Some pb"
    for a b pa pb
    using t(2)
  proof (cases t rule: wf_tree_cases)
    case (Leaf c f)
    with a b ab show ?thesis by (auto split: if_splits)
  next
    case (Internal f l r)
    then have nl: "char t = None" by simp
    from code_table_paths [OF nl a] code_table_paths [OF nl b] paths_prefix_free [OF t(2)] ab
    show ?thesis by blast
  qed
  then have "\<forall>a b pa pb. a \<noteq> b \<longrightarrow> codes (?s\<lparr>codes := ?cs\<rparr>) a = Some pa \<longrightarrow>
               codes (?s\<lparr>codes := ?cs\<rparr>) b = Some pb \<longrightarrow> \<not> prefix pa pb"
    by simp
  with t(1) g show ?thesis by blast
qed

theorem prefix_freedom_witness:
  "frequency_map (init\<lparr>frequency_map := Counter ''abracadabra''\<rparr>) \<noteq> [] \<and>
   (\<exists>t self1 r self2.
      build_huffman_tree (init\<lparr>frequency_map := Counter ''abracadabra''\<rparr>) = Inr (Some t, self1) \<and>
      generate_codes self1 = Inr (r, self2) \<and>
      (\<forall>a b pa pb. a \<noteq> b \<longrightarrow> codes self2 a = Some pa \<longrightarrow> codes self2 b = Some pb \<longrightarrow>
         \<not> prefix pa pb))"
proof -
  have h: "frequency_map (init\<lparr>frequency_map := Counter ''abracadabra''\<rparr>) \<noteq> []"
    by (simp add: Counter_def)
  from prefix_freedom [OF h] h show ?thesis by blast
qed

text \<open>
  C9: for every non-empty text \<open>compress\<close> returns, and the padding it records is that of
  the concatenated codes: it lies between 0 and 7, it is 0 exactly when their length is a
  multiple of 8 and \<open>8 - length mod 8\<close> otherwise, and the bytes written hold the
  concatenated codes followed by that many \<open>0\<close> bits.
\<close>

theorem padding_bound:
  assumes "msg \<noteq> []"
  shows "\<exists>bytes_array serialized_tree padding self1 encoded_text.
           compress self msg = Inr ((bytes_array, serialized_tree, padding), self1) \<and>
           encode_loop (codes self1) msg [] = Inr encoded_text \<and>
           0 \<le> padding \<and> padding \<le> 7 \<and>
           (padding = 0 \<longleftrightarrow> length encoded_text mod 8 = 0) \<and>
           (length encoded_text mod 8 \<noteq> 0 \<longrightarrow> padding = 8 - int (length encoded_text mod 8)) \<and>
           pack_loop (encoded_text @ replicate (nat padding) (CHR ''0'')) [] = Inr bytes_array \<and>
           bits_loop bytes_array [] = encoded_text @ replicate (nat padding) (CHR ''0'') \<and>
           8 * length bytes_array = length encoded_text + nat padding"
proof -
  from assms obtain t enc bs where
    e: "encode_loop (generate_codes_node t [] Map.empty) msg [] = Inr enc" and
    c: "compress self msg =
       Inr ((bs, serialize_node t, padding_of enc),
            self\<lparr>frequency_map := Counter msg, huffman_tree := Some t,
                 codes := generate_codes_node t [] Map.empty\<rparr>)" and
    p: "pack_loop (enc @ replicate (nat (padding_of enc)) (CHR ''0'')) [] = Inr bs" and
    b: "bits_loop bs [] = enc @ replicate (nat (padding_of enc)) (CHR ''0'')" and
    len: "8 * length bs = length enc + nat (padding_of enc)"
    by (rule compress_total)
  have r: "0 \<le> padding_of enc \<and> padding_of enc \<le> 7 \<and>
    (padding_of enc = 0 \<longleftrightarrow> length enc mod 8 = 0) \<and>
    (length enc mod 8 \<noteq> 0 \<longrightarrow> padding_of enc = 8 - int (length enc mod 8))"
  proof (cases enc rule: padding_of_cases)
    case Aligned
    then show ?thesis by simp
  next
    case Padded
    then show ?thesis by simp
  qed
  from c e r p b len show ?thesis
    by (intro exI [of _ bs] exI [of _ "serialize_node t"] exI [of _ "padding_of enc"]
        exI [of _ "self\<lparr>frequency_map := Counter msg, huffman_tree := Some t,
                 codes := generate_codes_node t [] Map.empty\<rparr>"] exI [of _ enc]) simp
qed


theorem padding_bound_witness:
  "''abracadabra'' \<noteq> [] \<and>
   (\<exists>bytes_array serialized_tree padding self1 encoded_text.
      compress init ''abracadabra'' = Inr ((bytes_array, serialized_tree, padding), self1) \<and>
      encode_loop (codes self1) ''abracadabra'' [] = Inr encoded_text \<and>
      0 \<le> padding \<and> padding \<le> 7 \<and>
      (padding = 0 \<longleftrightarrow> length encoded_text mod 8 = 0) \<and>
      (length encoded_text mod 8 \<noteq> 0 \<longrightarrow> padding = 8 - int (length encoded_text mod 8)) \<and>
      pack_loop (encoded_text @ replicate (nat padding) (CHR ''0'')) [] = Inr bytes_array \<and>
      bits_loop bytes_array [] = encoded_text @ replicate (nat padding) (CHR ''0'') \<and>
      8 * length bytes_array = length encoded_text + nat padding)"
proof -
  have h: "''abracadabra'' \<noteq> []" by simp
  from padding_bound [OF h] h show ?thesis by blast
qed

section \<open>Code lengths and frequencies\<close>

text \<open>
  C8: for every frequency table (a dictionary, so with distinct keys) and every two of its
  symbols, when the frequency of one is strictly higher than that of the other, the code
  that \<open>generate_codes\<close> gives it on the built tree is not longer than the code of the other.
\<close>

theorem monotonic_code_length:
  assumes "distinct (map fst (frequency_map self))"
    and "(a, fa) \<in> set (frequency_map self)"
    and "(b, fb) \<in> set (frequency_map self)"
    and "fb < fa"
  shows "\<exists>t self1 r self2 pa pb.
           build_huffman_tree self = Inr (Some t, self1) \<and>
           generate_codes self1 = Inr (r, self2) \<and>
           codes self2 (Sym a) = Some pa \<and> codes self2 (Sym b) = Some pb \<and>
           length pa \<le> length pb"
proof -
  from assms obtain t pa pb where
    t: "build_huffman_tree self = Inr (Some t, self\<lparr>huffman_tree := Some t\<rparr>)" and
    p: "generate_codes_node t [] Map.empty (Sym a) = Some pa"
       "generate_codes_node t [] Map.empty (Sym b) = Some pb"
       "length pa \<le> length pb"
    by (rule built_code_lengths)
  let ?s = "self\<lparr>huffman_tree := Some t\<rparr>"
  have g: "generate_codes ?s =
      Inr (if is_leaf t then None else Some (generate_codes_node t [] Map.empty),
           ?s\<lparr>codes := generate_codes_node t [] Map.empty\<rparr>)"
    by (rule generate_codes_Some) simp
  from t g p show ?thesis by (intro exI conjI) (assumption | simp)+
qed

theorem monotonic_code_length_witness:
  "distinct (map fst (frequency_map (init\<lparr>frequency_map := Counter ''abracadabra''\<rparr>))) \<and>
   (CHR ''a'', 5) \<in> set (frequency_map (init\<lparr>frequency_map := Counter ''abracadabra''\<rparr>)) \<and>
   (CHR ''c'', 1) \<in> set (frequency_map (init\<lparr>frequency_map := Counter ''abracadabra''\<rparr>)) \<and>
   (1::nat) < 5 \<and>
   (\<exists>t self1 r self2 pa pb.
      build_huffman_tree (init\<lparr>frequency_map := Counter ''abracadabra''\<rparr>) = Inr (Some t, self1) \<and>
      generate_codes self1 = Inr (r, self2) \<and>
      codes self2 (Sym (CHR ''a'')) = Some pa \<and> codes self2 (Sym (CHR ''c'')) = Some pb \<and>
      length pa \<le> length pb)"
proof -
  let ?s = "init\<lparr>frequency_map := Counter ''abracadabra''\<rparr>"
  have c: "Counter ''abracadabra'' =
             [(CHR ''a'', 5), (CHR ''b'', 2), (CHR ''r'', 2), (CHR ''c'', 1), (CHR ''d'', 1)]"
    by (simp add: Counter_def)
  have 1: "distinct (map fst (frequency_map ?s))" by (simp add: c)
  have 2: "(CHR ''a'', 5) \<in> set (frequency_map ?s)" by (simp add: c)
  have 3: "(CHR ''c'', 1) \<in> set (frequency_map ?s)" by (simp add: c)
  have 4: "(1::nat) < 5" by simp
  from monotonic_code_length [OF 1 2 3 4] 1 2 3 4 show ?thesis by blast
qed

end
